theory Spec2Isabelle
  imports Main "HOL-Library.Word"
begin

section \<open>The scrypt mask search: a shallow embedding\<close>

text \<open>
  The repository holds two Go programs: the search tool (types \<open>ScryptData\<close>, functions
  \<open>parseFile\<close>, \<open>verifyPassword\<close>, \<open>getCharset\<close>, \<open>generatePasswords\<close>, \<open>worker\<close>,
  \<open>calculateTotalCombinations\<close>, \<open>main\<close>) and the record generator \<open>lab2/gen.go\<close>.
  Go strings are byte sequences and so are Isabelle strings (\<open>char\<close> is a byte). A Go
  \<open>int\<close> is a 64-bit machine integer, read signed; \<open>uint64\<close> is a 64-bit word read
  unsigned. The variable for a mask is called \<open>msk\<close> because \<open>mask\<close> is a constant of the
  word library.
\<close>

type_synonym byte = "8 word"
type_synonym go_int = "64 word"

subsection \<open>The credential record and the key-derivation function\<close>

record ScryptData =
  N :: go_int
  R :: go_int
  P :: go_int
  KeyLen :: go_int
  Salt :: "byte list"
  Hash :: "byte list"

text \<open>
  \<open>scrypt.Key(password, salt, N, r, p, keyLen)\<close> belongs to \<open>golang.org/x/crypto\<close>, not
  to this repository. It is a parameter of the model. A call of it returns an error
  (\<open>Some (Inl err)\<close>) or the derived key (\<open>Some (Inr key)\<close>), or it panics (\<open>None\<close>).
  The library returns an error for an \<open>N\<close> that is not a power of two above 1 and for
  sizes that are too large; other arguments, such as a negative key length, reach a slice
  expression or an allocation that panics, and neither program of the repository checks
  the arguments before the call.
\<close>

type_synonym kdf =
  "string \<Rightarrow> byte list \<Rightarrow> go_int \<Rightarrow> go_int \<Rightarrow> go_int \<Rightarrow> go_int \<Rightarrow> (string + byte list) option"

text \<open>
  \<open>verifyPassword\<close>: an error of the derivation is answered with \<open>false\<close>; otherwise
  \<open>bytes.Equal\<close> compares the key with the stored hash. The function has no
  \<open>recover\<close>, so a panic of the derivation passes through it: the value \<open>None\<close>.
\<close>

definition verifyPassword :: "kdf \<Rightarrow> string \<Rightarrow> ScryptData \<Rightarrow> bool option" where
  "verifyPassword key password data =
     (case key password (Salt data) (N data) (R data) (P data) (KeyLen data) of
        None \<Rightarrow> None
      | Some (Inl err) \<Rightarrow> Some False
      | Some (Inr hash) \<Rightarrow> Some (hash = Hash data))"

subsection \<open>Go's standard library, as far as the record format uses it\<close>

text \<open>
  The functions of this subsection belong to Go's standard library. They are modelled
  from their documentation, on byte strings.
\<close>

text \<open>
  \<open>unicode.IsSpace\<close>: the code points with the White_Space property, each in its UTF-8
  encoding: tab, line feed, vertical tab, form feed, carriage return, space, U+0085,
  U+00A0, U+1680, U+2000 to U+200A, U+2028, U+2029, U+202F, U+205F, U+3000.
\<close>

definition space_runes :: "string list" where
  "space_runes =
     [[CHR 0x09], [CHR 0x0A], [CHR 0x0B], [CHR 0x0C], [CHR 0x0D], [CHR 0x20],
      [CHR 0xC2, CHR 0x85], [CHR 0xC2, CHR 0xA0], [CHR 0xE1, CHR 0x9A, CHR 0x80],
      [CHR 0xE2, CHR 0x80, CHR 0x80], [CHR 0xE2, CHR 0x80, CHR 0x81],
      [CHR 0xE2, CHR 0x80, CHR 0x82], [CHR 0xE2, CHR 0x80, CHR 0x83],
      [CHR 0xE2, CHR 0x80, CHR 0x84], [CHR 0xE2, CHR 0x80, CHR 0x85],
      [CHR 0xE2, CHR 0x80, CHR 0x86], [CHR 0xE2, CHR 0x80, CHR 0x87],
      [CHR 0xE2, CHR 0x80, CHR 0x88], [CHR 0xE2, CHR 0x80, CHR 0x89],
      [CHR 0xE2, CHR 0x80, CHR 0x8A], [CHR 0xE2, CHR 0x80, CHR 0xA8],
      [CHR 0xE2, CHR 0x80, CHR 0xA9], [CHR 0xE2, CHR 0x80, CHR 0xAF],
      [CHR 0xE2, CHR 0x81, CHR 0x9F], [CHR 0xE3, CHR 0x80, CHR 0x80]]"

text \<open>The number of bytes of the white-space rune a string starts (ends) with; 0 if none.\<close>

definition leading_space :: "string \<Rightarrow> nat" where
  "leading_space s =
     (case find (\<lambda>r. take (length r) s = r) space_runes of None \<Rightarrow> 0 | Some r \<Rightarrow> length r)"

definition trailing_space :: "string \<Rightarrow> nat" where
  "trailing_space s =
     (case find (\<lambda>r. length r \<le> length s \<and> drop (length s - length r) s = r) space_runes of
        None \<Rightarrow> 0 | Some r \<Rightarrow> length r)"

function TrimLeft :: "string \<Rightarrow> string" where
  "TrimLeft s = (if leading_space s = 0 then s else TrimLeft (drop (leading_space s) s))"
  by pat_completeness auto
termination
proof (relation "measure length")
  fix s :: string
  assume "leading_space s \<noteq> 0"
  then obtain r where r: "find (\<lambda>r. take (length r) s = r) space_runes = Some r" "r \<noteq> []"
    by (auto simp: leading_space_def split: option.splits)
  then have "take (length r) s = r" by (auto simp: find_Some_iff)
  with r(2) have "s \<noteq> []" by auto
  moreover have "leading_space s = length r" using r(1) by (simp add: leading_space_def)
  ultimately show "(drop (leading_space s) s, s) \<in> measure length" using r(2) by simp
qed simp

function TrimRight :: "string \<Rightarrow> string" where
  "TrimRight s =
     (if trailing_space s = 0 then s else TrimRight (take (length s - trailing_space s) s))"
  by pat_completeness auto
termination
proof (relation "measure length")
  fix s :: string
  assume "trailing_space s \<noteq> 0"
  then obtain r where
    r: "find (\<lambda>r. length r \<le> length s \<and> drop (length s - length r) s = r) space_runes = Some r"
      "r \<noteq> []"
    by (auto simp: trailing_space_def split: option.splits)
  then have "length r \<le> length s" by (auto simp: find_Some_iff)
  with r(2) have "s \<noteq> []" by auto
  moreover have "trailing_space s = length r" using r(1) by (simp add: trailing_space_def)
  ultimately show "(take (length s - trailing_space s) s, s) \<in> measure length"
    using r(2) by simp
qed simp

text \<open>\<open>strings.TrimSpace\<close>: all leading and trailing white space removed.\<close>

definition TrimSpace :: "string \<Rightarrow> string" where
  "TrimSpace s = TrimRight (TrimLeft s)"

text \<open>
  \<open>strings.Split(s, sep)\<close> for a separator of one byte: the pieces between the
  separators, one more than there are separators.
\<close>

fun Split :: "string \<Rightarrow> char \<Rightarrow> string list" where
  "Split [] sep = [[]]"
| "Split (c # cs) sep =
     (if c = sep then [] # Split cs sep
      else (case Split cs sep of [] \<Rightarrow> [[c]] | p # ps \<Rightarrow> (c # p) # ps))"

text \<open>
  \<open>strconv.Atoi\<close>: an optional sign, then one or more decimal digits. The digits are read
  from the left: a byte that is no digit is a syntax error, a value that leaves the
  unsigned 64-bit range is a range error, whichever comes first; at the end a value
  outside the signed 64-bit range is a range error.
\<close>

datatype num_error = ErrSyntax | ErrRange

definition is_digit :: "char \<Rightarrow> bool" where
  "is_digit c = (48 \<le> (of_char c :: nat) \<and> (of_char c :: nat) \<le> 57)"

fun scan_digits :: "nat \<Rightarrow> string \<Rightarrow> num_error + nat" where
  "scan_digits n [] = Inr n"
| "scan_digits n (c # cs) =
     (if \<not> is_digit c then Inl ErrSyntax
      else if 2 ^ 64 \<le> n * 10 + (of_char c - 48) then Inl ErrRange
      else scan_digits (n * 10 + (of_char c - 48)) cs)"

definition Atoi :: "string \<Rightarrow> num_error + go_int" where
  "Atoi s =
     (let neg = (s \<noteq> [] \<and> hd s = CHR ''-'');
          ds = (if s \<noteq> [] \<and> (hd s = CHR ''-'' \<or> hd s = CHR ''+'') then tl s else s)
      in if ds = [] then Inl ErrSyntax
         else (case scan_digits 0 ds of
                 Inl err \<Rightarrow> Inl err
               | Inr v \<Rightarrow>
                   if neg then (if 2 ^ 63 < v then Inl ErrRange else Inr (- of_nat v))
                   else (if 2 ^ 63 \<le> v then Inl ErrRange else Inr (of_nat v))))"

text \<open>The verb \<open>%d\<close> of \<open>fmt\<close> on an \<open>int\<close>: decimal digits, a minus sign if negative.\<close>

fun decimal :: "nat \<Rightarrow> string" where
  "decimal n =
     (if n < 10 then [''0123456789'' ! n]
      else decimal (n div 10) @ [''0123456789'' ! (n mod 10)])"

declare decimal.simps [simp del]

definition fmt_d :: "go_int \<Rightarrow> string" where
  "fmt_d i = (if sint i < 0 then CHR ''-'' # decimal (nat (- sint i)) else decimal (nat (sint i)))"

text \<open>\<open>hex.EncodeToString\<close> (lower case) and \<open>hex.DecodeString\<close> (either case).\<close>

definition hextable :: string where
  "hextable = ''0123456789abcdef''"

definition EncodeToString :: "byte list \<Rightarrow> string" where
  "EncodeToString src = concat (map (\<lambda>b. [hextable ! (unat b div 16), hextable ! (unat b mod 16)]) src)"

definition fromHexChar :: "char \<Rightarrow> nat option" where
  "fromHexChar c =
     (let v = (of_char c :: nat) in
      if 48 \<le> v \<and> v \<le> 57 then Some (v - 48)
      else if 97 \<le> v \<and> v \<le> 102 then Some (v - 97 + 10)
      else if 65 \<le> v \<and> v \<le> 70 then Some (v - 65 + 10)
      else None)"

datatype hex_error = ErrLength | InvalidByteError

fun DecodeString :: "string \<Rightarrow> hex_error + byte list" where
  "DecodeString [] = Inr []"
| "DecodeString [c] = (case fromHexChar c of None \<Rightarrow> Inl InvalidByteError | Some a \<Rightarrow> Inl ErrLength)"
| "DecodeString (c # d # rest) =
     (case fromHexChar c of None \<Rightarrow> Inl InvalidByteError
      | Some a \<Rightarrow>
     (case fromHexChar d of None \<Rightarrow> Inl InvalidByteError
      | Some b \<Rightarrow>
     (case DecodeString rest of Inl e \<Rightarrow> Inl e
      | Inr bytes \<Rightarrow> Inr (of_nat (a * 16 + b) # bytes))))"

subsection \<open>Reading the credential record\<close>

text \<open>
  The file system is a parameter: \<open>os.ReadFile\<close> returns an error or the content.
  \<open>parseFile\<close> returns the first error it meets, else the record.
\<close>

type_synonym file_system = "string \<Rightarrow> string + string"

datatype parse_error =
    ReadError string
  | InvalidFormat nat
  | InvalidN num_error
  | InvalidR num_error
  | InvalidP num_error
  | InvalidKeyLen num_error
  | InvalidSalt hex_error
  | InvalidHash hex_error

definition parseFile :: "file_system \<Rightarrow> string \<Rightarrow> parse_error + ScryptData" where
  "parseFile fs filename =
     (case fs filename of Inl err \<Rightarrow> Inl (ReadError err)
      | Inr content \<Rightarrow>
        (let parts = Split (TrimSpace content) CHR ''*'' in
         if length parts \<noteq> 6 then Inl (InvalidFormat (length parts))
         else (case Atoi (parts ! 0) of Inl err \<Rightarrow> Inl (InvalidN err)
          | Inr n \<Rightarrow>
         (case Atoi (parts ! 1) of Inl err \<Rightarrow> Inl (InvalidR err)
          | Inr r \<Rightarrow>
         (case Atoi (parts ! 2) of Inl err \<Rightarrow> Inl (InvalidP err)
          | Inr p \<Rightarrow>
         (case Atoi (parts ! 3) of Inl err \<Rightarrow> Inl (InvalidKeyLen err)
          | Inr keyLen \<Rightarrow>
         (case DecodeString (parts ! 4) of Inl err \<Rightarrow> Inl (InvalidSalt err)
          | Inr salt \<Rightarrow>
         (case DecodeString (parts ! 5) of Inl err \<Rightarrow> Inl (InvalidHash err)
          | Inr hash \<Rightarrow>
             Inr \<lparr>N = n, R = r, P = p, KeyLen = keyLen, Salt = salt, Hash = hash\<rparr>))))))))"

subsection \<open>The charset table\<close>

definition getCharset :: "char \<Rightarrow> string" where
  "getCharset m =
     (if m = CHR ''a'' then ''qwertyuiopasdfghjklzxcvbnmQWERTYUIOPASDFGHJKLZXCVBNM1234567890''
      else if m = CHR ''d'' then ''1234567890''
      else if m = CHR ''l'' then ''qwertyuiopasdfghjklzxcvbnm''
      else if m = CHR ''u'' then ''QWERTYUIOPASDFGHJKLZXCVBNM''
      else if m = CHR ''s'' then ''!@#$%^&*()_+-=[]{}|;:,.<>?''
      else [])"

definition mask_symbols :: "char set" where
  "mask_symbols = {CHR ''a'', CHR ''d'', CHR ''l'', CHR ''u'', CHR ''s''}"

subsection \<open>The candidate generator\<close>

text \<open>
  Indexing a Go slice or string checks the bounds and panics outside them:
  \<open>at_index\<close> returns \<open>None\<close> there.
\<close>

definition at_index :: "'a list \<Rightarrow> nat \<Rightarrow> 'a option" where
  "at_index xs i = (if i < length xs then Some (xs ! i) else None)"

text \<open>
  The first loop of \<open>generatePasswords\<close> fills \<open>charsets[i]\<close> for each symbol of the mask
  and returns at the first symbol whose charset is empty: \<open>None\<close> stands for that early
  return. Go's \<open>range\<close> over a string decodes runes; a rune outside ASCII is none of the
  five symbols, and neither is the byte it starts with, so the loop over bytes stops at
  the same place, and before that place every rune is one byte and \<open>i\<close> is its position.
\<close>

fun fill_charsets :: "string \<Rightarrow> string list option" where
  "fill_charsets [] = Some []"
| "fill_charsets (m # ms) =
     (let c = getCharset m in
      if c = [] then None
      else (case fill_charsets ms of None \<Rightarrow> None | Some cs \<Rightarrow> Some (c # cs)))"

text \<open>
  \<open>for i := range mask { password[i] = charsets[i][ind[i]] }\<close>, over the positions
  \<open>is\<close>; \<open>None\<close> is an index out of range.
\<close>

fun fill_password :: "string list \<Rightarrow> nat list \<Rightarrow> nat list \<Rightarrow> string option" where
  "fill_password charsets ind [] = Some []"
| "fill_password charsets ind (i # is) =
     (case at_index charsets i of None \<Rightarrow> None
      | Some c \<Rightarrow>
     (case at_index ind i of None \<Rightarrow> None
      | Some j \<Rightarrow>
     (case at_index c j of None \<Rightarrow> None
      | Some b \<Rightarrow>
     (case fill_password charsets ind is of None \<Rightarrow> None
      | Some bs \<Rightarrow> Some (b # bs)))))"

text \<open>
  \<open>for i := len(ind) - 1; i >= 0 && carry; i-- { ... }\<close>: the second argument is
  \<open>i + 1\<close>, so that \<open>0\<close> is the end of the loop. The result is the index vector and the
  final value of \<open>carry\<close>.
\<close>

fun carry_loop :: "string list \<Rightarrow> nat \<Rightarrow> nat list \<Rightarrow> bool \<Rightarrow> (nat list \<times> bool) option" where
  "carry_loop charsets 0 ind carry = Some (ind, carry)"
| "carry_loop charsets (Suc i) ind carry =
     (if \<not> carry then Some (ind, carry)
      else (case at_index ind i of None \<Rightarrow> None
            | Some v \<Rightarrow>
           (case at_index charsets i of None \<Rightarrow> None
            | Some c \<Rightarrow>
              if v + 1 < length c then carry_loop charsets i (ind[i := v + 1]) False
              else carry_loop charsets i (ind[i := 0]) True)))"

text \<open>
  The outer \<open>for { ... }\<close> loop: build the candidate, send it, increment, and leave the
  loop when the carry runs past the leftmost position. The value is the sequence of
  strings sent on the channel, in order; \<open>None\<close> is a run that panics or never leaves
  the loop.
\<close>

partial_function (option) gen_loop :: "nat \<Rightarrow> string list \<Rightarrow> nat list \<Rightarrow> string list option" where
  "gen_loop n charsets ind =
     (case fill_password charsets ind [0..<n] of None \<Rightarrow> None
      | Some password \<Rightarrow>
     (case carry_loop charsets (length ind) ind True of None \<Rightarrow> None
      | Some (ind', carry) \<Rightarrow>
          if carry then Some [password]
          else Option.bind (gen_loop n charsets ind') (\<lambda>rest. Some (password # rest))))"

declare gen_loop.simps [code]

text \<open>
  \<open>generatePasswords mask = Some out\<close>: the goroutine sends the strings \<open>out\<close> on its
  channel, in this order, and returns, which closes the channel (\<open>defer close(ch)\<close>)
  and then releases the wait group (\<open>defer wg.Done()\<close>). For an invalid mask it prints a
  message and returns before sending anything.
\<close>

definition generatePasswords :: "string \<Rightarrow> string list option" where
  "generatePasswords msk =
     (case fill_charsets msk of None \<Rightarrow> Some []
      | Some charsets \<Rightarrow> gen_loop (length msk) charsets (replicate (length msk) 0))"

subsection \<open>The size of the search space\<close>

text \<open>\<open>total := uint64(1); for _, m := range mask { total *= uint64(len(getCharset(m))) }\<close>\<close>

fun total_loop :: "64 word \<Rightarrow> string \<Rightarrow> 64 word" where
  "total_loop tot [] = tot"
| "total_loop tot (m # ms) = total_loop (tot * of_nat (length (getCharset m))) ms"

definition calculateTotalCombinations :: "string \<Rightarrow> 64 word" where
  "calculateTotalCombinations msk = total_loop 1 msk"

text \<open>The product of the charset sizes as a natural number, without a word size.\<close>

definition charset_product :: "string \<Rightarrow> nat" where
  "charset_product msk = prod_list (map (\<lambda>m. length (getCharset m)) msk)"

subsection \<open>The start of \<open>main\<close>\<close>

text \<open>
  \<open>main\<close> up to the start of the search: without a mask or without a file argument it
  prints the usage and exits with status 1; a record that does not parse ends the run
  with status 1 as well; otherwise the search starts with the parsed record and the
  total that \<open>calculateTotalCombinations\<close> computes.
\<close>

datatype startup = Exit_usage | Exit_parse parse_error | Start_search ScryptData "64 word"

definition main_startup :: "file_system \<Rightarrow> string \<Rightarrow> string list \<Rightarrow> startup" where
  "main_startup fs maskFlag args =
     (if maskFlag = [] \<or> length args < 1 then Exit_usage
      else (case parseFile fs (args ! 0) of
              Inl err \<Rightarrow> Exit_parse err
            | Inr data \<Rightarrow> Start_search data (calculateTotalCombinations maskFlag)))"

subsection \<open>The record generator \<open>lab2/gen.go\<close>\<close>

definition computeScryptHash ::
  "kdf \<Rightarrow> string \<Rightarrow> byte list \<Rightarrow> go_int \<Rightarrow> go_int \<Rightarrow> go_int \<Rightarrow> go_int \<Rightarrow> (string + byte list) option" where
  "computeScryptHash key password salt n r p keyLen = key password salt n r p keyLen"

text \<open>
  What \<open>main\<close> of \<open>gen.go\<close> leaves behind: exit status 1 (no password, or the hash could
  not be computed, or the file could not be written), a panic of the derivation, a file
  with the record, or the record and a line feed on standard output. The salt is the 16
  bytes that \<open>generateRandom(16)\<close> returned and \<open>writable\<close> says whether \<open>os.WriteFile\<close>
  succeeds; both are inputs of the model.
\<close>

datatype gen_outcome =
    Gen_usage
  | Gen_panic
  | Gen_hash_error string
  | Gen_write_error
  | Gen_saved string string
  | Gen_printed string

definition gen_record :: "go_int \<Rightarrow> go_int \<Rightarrow> go_int \<Rightarrow> go_int \<Rightarrow> byte list \<Rightarrow> byte list \<Rightarrow> string" where
  "gen_record n r p keyLen salt hashValue =
     fmt_d n @ ''*'' @ fmt_d r @ ''*'' @ fmt_d p @ ''*'' @ fmt_d keyLen @ ''*''
       @ EncodeToString salt @ ''*'' @ EncodeToString hashValue"

definition gen_main ::
  "kdf \<Rightarrow> byte list \<Rightarrow> bool \<Rightarrow> string \<Rightarrow> string \<Rightarrow> go_int \<Rightarrow> go_int \<Rightarrow> go_int \<Rightarrow> go_int \<Rightarrow> gen_outcome" where
  "gen_main key salt writable password output n r p keyLen =
     (if password = [] then Gen_usage
      else (case computeScryptHash key password salt n r p keyLen of
              None \<Rightarrow> Gen_panic
            | Some (Inl err) \<Rightarrow> Gen_hash_error err
            | Some (Inr hashValue) \<Rightarrow>
                (let result = gen_record n r p keyLen salt hashValue in
                 if output \<noteq> [] then (if writable then Gen_saved output result else Gen_write_error)
                 else Gen_printed (result @ [CHR 0x0A]))))"

subsection \<open>The concurrent search\<close>

text \<open>
  After the start, \<open>main\<close> runs the generator goroutine, \<open>runtime.NumCPU()\<close> worker
  goroutines, a goroutine that waits for the wait group, sleeps and sends on \<open>done\<close>,
  and its own \<open>select\<close> loop. The goroutines share the channel \<open>passwords\<close> (capacity
  10000), the channel \<open>result\<close> (capacity 1), the atomic flag \<open>found\<close>, the atomic
  counter \<open>tried\<close> and the wait group, which counts the generator alone
  (\<open>wg.Add(1)\<close> before \<open>go generatePasswords\<close>; the workers are started without it).
  Channel operations and \<open>sync/atomic\<close> operations are sequentially consistent in Go and
  everything else a goroutine touches is its own, so an execution is an interleaving of
  these operations. The model is a labelled transition relation with one rule for each.

  The state holds, for the generator, the candidates it has yet to send (\<open>pending\<close>,
  initially the sequence \<open>generatePasswords\<close> computes), whether it has closed the
  channel and whether it has called \<open>wg.Done()\<close> (the deferred calls run in this order);
  the content of the two channels; the flag and the counter; and a program counter for
  each worker and for \<open>main\<close>.

  A worker is at one of these places:
  \<^item> \<open>W_range\<close>: at \<open>for password := range passwords\<close>, about to receive;
  \<^item> \<open>W_load p\<close>: it holds \<open>p\<close> and is about to evaluate \<open>found.Load()\<close>;
  \<^item> \<open>W_drain\<close>: in the inner loop \<open>for range passwords {}\<close>;
  \<^item> \<open>W_add p\<close>: about to execute \<open>tried.Add(1)\<close>;
  \<^item> \<open>W_verify p\<close>: about to evaluate \<open>verifyPassword(password, data)\<close>;
  \<^item> \<open>W_cas p\<close>: about to execute \<open>found.CompareAndSwap(false, true)\<close>;
  \<^item> \<open>W_send p\<close>: about to execute \<open>result <- password\<close>;
  \<^item> \<open>W_exit\<close>: returned;
  \<^item> \<open>W_panic\<close>: the derivation panicked in this goroutine, which ends the process.

  \<open>main\<close> is at its \<open>select\<close> (\<open>D_select\<close>), has received a password from \<open>result\<close>
  (\<open>D_found\<close>) or the signal from \<open>done\<close> (\<open>D_not_found\<close>), or has printed its report
  with the value of \<open>tried.Load()\<close> and returned (\<open>D_exit\<close>). The \<open>done\<close> signal is ready
  once the generator has called \<open>wg.Done()\<close>; the sleep before it orders nothing. The
  ticker case of the \<open>select\<close> only prints and is left out. When \<open>main\<close> returns or a
  goroutine panics the process ends, while the relation lets the other goroutines go on:
  every execution of the program is an execution of the relation, cut where the process
  ends.
\<close>

datatype outcome = PasswordFound string "64 word" | PasswordNotFound "64 word"

datatype worker_pc =
    W_range
  | W_load string
  | W_drain
  | W_add string
  | W_verify string
  | W_cas string
  | W_send string
  | W_exit
  | W_panic

datatype driver_pc = D_select | D_found string | D_not_found | D_exit outcome

record search_state =
  pending :: "string list"
  passwords :: "string list"
  chan_closed :: bool
  gen_done :: bool
  found :: bool
  tried :: "64 word"
  result :: "string list"
  workers :: "worker_pc list"
  driver :: driver_pc

definition passwords_cap :: nat where
  "passwords_cap = 10000"

definition result_cap :: nat where
  "result_cap = 1"

definition init :: "string list \<Rightarrow> nat \<Rightarrow> search_state" where
  "init out numWorkers =
     \<lparr>pending = out, passwords = [], chan_closed = False, gen_done = False, found = False,
      tried = 0, result = [], workers = replicate numWorkers W_range, driver = D_select\<rparr>"

text \<open>
  The labels name the operation and the goroutine: \<open>Recv k p\<close> is worker \<open>k\<close> receiving
  \<open>p\<close> in its outer loop, \<open>Drain k p\<close> in its inner loop; \<open>Load k b\<close>, \<open>Verify k b\<close> and
  \<open>Cas k b\<close> carry the value the operation returned; \<open>Deliver k p\<close> is the send on
  \<open>result\<close>.
\<close>

datatype action =
    Gen_send string
  | Gen_close
  | Gen_wg_done
  | Recv nat string
  | Range_end nat
  | Load nat bool
  | Drain nat string
  | Drain_end nat
  | Add nat
  | Verify nat bool
  | Panic nat
  | Cas nat bool
  | Deliver nat string
  | Select_result string
  | Select_done
  | Print outcome

inductive step :: "kdf \<Rightarrow> ScryptData \<Rightarrow> search_state \<Rightarrow> action \<Rightarrow> search_state \<Rightarrow> bool"
  for key :: kdf and data :: ScryptData where
  gen_send:
    "pending s = p # ps \<Longrightarrow> length (passwords s) < passwords_cap \<Longrightarrow>
     step key data s (Gen_send p) (s\<lparr>pending := ps, passwords := passwords s @ [p]\<rparr>)"
| gen_close:
    "pending s = [] \<Longrightarrow> \<not> chan_closed s \<Longrightarrow>
     step key data s Gen_close (s\<lparr>chan_closed := True\<rparr>)"
| gen_wg_done:
    "chan_closed s \<Longrightarrow> \<not> gen_done s \<Longrightarrow>
     step key data s Gen_wg_done (s\<lparr>gen_done := True\<rparr>)"
| recv:
    "k < length (workers s) \<Longrightarrow> workers s ! k = W_range \<Longrightarrow> passwords s = p # ps \<Longrightarrow>
     step key data s (Recv k p) (s\<lparr>passwords := ps, workers := (workers s)[k := W_load p]\<rparr>)"
| range_end:
    "k < length (workers s) \<Longrightarrow> workers s ! k = W_range \<Longrightarrow> passwords s = [] \<Longrightarrow>
     chan_closed s \<Longrightarrow>
     step key data s (Range_end k) (s\<lparr>workers := (workers s)[k := W_exit]\<rparr>)"
| load_found:
    "k < length (workers s) \<Longrightarrow> workers s ! k = W_load p \<Longrightarrow> found s \<Longrightarrow>
     step key data s (Load k True) (s\<lparr>workers := (workers s)[k := W_drain]\<rparr>)"
| load_not_found:
    "k < length (workers s) \<Longrightarrow> workers s ! k = W_load p \<Longrightarrow> \<not> found s \<Longrightarrow>
     step key data s (Load k False) (s\<lparr>workers := (workers s)[k := W_add p]\<rparr>)"
| drain:
    "k < length (workers s) \<Longrightarrow> workers s ! k = W_drain \<Longrightarrow> passwords s = p # ps \<Longrightarrow>
     step key data s (Drain k p) (s\<lparr>passwords := ps\<rparr>)"
| drain_end:
    "k < length (workers s) \<Longrightarrow> workers s ! k = W_drain \<Longrightarrow> passwords s = [] \<Longrightarrow>
     chan_closed s \<Longrightarrow>
     step key data s (Drain_end k) (s\<lparr>workers := (workers s)[k := W_exit]\<rparr>)"
| add:
    "k < length (workers s) \<Longrightarrow> workers s ! k = W_add p \<Longrightarrow>
     step key data s (Add k) (s\<lparr>tried := tried s + 1, workers := (workers s)[k := W_verify p]\<rparr>)"
| verify_match:
    "k < length (workers s) \<Longrightarrow> workers s ! k = W_verify p \<Longrightarrow>
     verifyPassword key p data = Some True \<Longrightarrow>
     step key data s (Verify k True) (s\<lparr>workers := (workers s)[k := W_cas p]\<rparr>)"
| verify_mismatch:
    "k < length (workers s) \<Longrightarrow> workers s ! k = W_verify p \<Longrightarrow>
     verifyPassword key p data = Some False \<Longrightarrow>
     step key data s (Verify k False) (s\<lparr>workers := (workers s)[k := W_range]\<rparr>)"
| verify_panic:
    "k < length (workers s) \<Longrightarrow> workers s ! k = W_verify p \<Longrightarrow>
     verifyPassword key p data = None \<Longrightarrow>
     step key data s (Panic k) (s\<lparr>workers := (workers s)[k := W_panic]\<rparr>)"
| cas_win:
    "k < length (workers s) \<Longrightarrow> workers s ! k = W_cas p \<Longrightarrow> \<not> found s \<Longrightarrow>
     step key data s (Cas k True) (s\<lparr>found := True, workers := (workers s)[k := W_send p]\<rparr>)"
| cas_lose:
    "k < length (workers s) \<Longrightarrow> workers s ! k = W_cas p \<Longrightarrow> found s \<Longrightarrow>
     step key data s (Cas k False) (s\<lparr>workers := (workers s)[k := W_exit]\<rparr>)"
| deliver:
    "k < length (workers s) \<Longrightarrow> workers s ! k = W_send p \<Longrightarrow> length (result s) < result_cap \<Longrightarrow>
     step key data s (Deliver k p) (s\<lparr>result := result s @ [p], workers := (workers s)[k := W_exit]\<rparr>)"
| select_result:
    "driver s = D_select \<Longrightarrow> result s = p # ps \<Longrightarrow>
     step key data s (Select_result p) (s\<lparr>result := ps, driver := D_found p\<rparr>)"
| select_done:
    "driver s = D_select \<Longrightarrow> gen_done s \<Longrightarrow>
     step key data s Select_done (s\<lparr>driver := D_not_found\<rparr>)"
| print_found:
    "driver s = D_found p \<Longrightarrow>
     step key data s (Print (PasswordFound p (tried s))) (s\<lparr>driver := D_exit (PasswordFound p (tried s))\<rparr>)"
| print_not_found:
    "driver s = D_not_found \<Longrightarrow>
     step key data s (Print (PasswordNotFound (tried s))) (s\<lparr>driver := D_exit (PasswordNotFound (tried s))\<rparr>)"

text \<open>\<open>exec key data s as t\<close>: from \<open>s\<close> the operations \<open>as\<close>, in this order, lead to \<open>t\<close>.\<close>

inductive exec :: "kdf \<Rightarrow> ScryptData \<Rightarrow> search_state \<Rightarrow> action list \<Rightarrow> search_state \<Rightarrow> bool"
  for key :: kdf and data :: ScryptData and s :: search_state where
  exec_start: "exec key data s [] s"
| exec_step: "exec key data s as t \<Longrightarrow> step key data t a u \<Longrightarrow> exec key data s (as @ [a]) u"

text \<open>
  What an execution did: the passwords sent on \<open>result\<close>, the candidates the workers
  took from \<open>passwords\<close>, and the number of \<open>tried.Add(1)\<close>.
\<close>

fun delivered :: "action \<Rightarrow> string list" where
  "delivered (Deliver k p) = [p]"
| "delivered a = []"

definition deliveries :: "action list \<Rightarrow> string list" where
  "deliveries as = concat (map delivered as)"

fun received :: "action \<Rightarrow> string list" where
  "received (Recv k p) = [p]"
| "received (Drain k p) = [p]"
| "received a = []"

definition receptions :: "action list \<Rightarrow> string list" where
  "receptions as = concat (map received as)"

fun is_add :: "action \<Rightarrow> bool" where
  "is_add (Add k) = True"
| "is_add a = False"

definition attempts :: "action list \<Rightarrow> nat" where
  "attempts as = length (filter is_add as)"

section \<open>Auxiliary definitions for the proofs\<close>

text \<open>
  Two functions of the type of \<open>scrypt.Key\<close> for the closed examples: one that rejects
  every input, as \<open>scrypt.Key\<close> does when \<open>N\<close> is not above 1, and one that returns the
  bytes of the password, and panics on a negative key length, as \<open>scrypt.Key\<close> does
  (the key is cut with a slice expression of that length).
\<close>

definition reject_kdf :: kdf where
  "reject_kdf password salt n r p keyLen = Some (Inl ''scrypt: N must be > 1 and a power of 2'')"

definition plain_kdf :: kdf where
  "plain_kdf password salt n r p keyLen =
     (if sint keyLen < 0 then None else Some (Inr (map of_char password)))"

text \<open>The value of a string of digits, for the proof about \<open>Atoi\<close>.\<close>

fun digits_value :: "nat \<Rightarrow> string \<Rightarrow> nat" where
  "digits_value acc [] = acc"
| "digits_value acc (c # cs) = digits_value (acc * 10 + (of_char c - 48)) cs"

subsection \<open>Auxiliary notions for the generator's proof\<close>

definition index_ok :: "string list \<Rightarrow> nat list \<Rightarrow> bool" where
  "index_ok charsets ind = list_all2 (\<lambda>c i. i < length c) charsets ind"

definition index_value :: "string list \<Rightarrow> nat list \<Rightarrow> nat" where
  "index_value charsets ind = foldl (\<lambda>v (c, i). v * length c + i) 0 (zip charsets ind)"

definition space_size :: "string list \<Rightarrow> nat" where
  "space_size charsets = prod_list (map length charsets)"

subsection \<open>Alphabets of the record\<close>

definition digit_chars :: "char set" where
  "digit_chars = set ''0123456789''"

definition hex_chars :: "char set" where
  "hex_chars = set ''0123456789abcdef''"

definition record_chars :: "char set" where
  "record_chars = set ''-*0123456789abcdef''"

subsection \<open>Invariants of the search\<close>

fun is_send :: "worker_pc \<Rightarrow> bool" where
  "is_send (W_send p) = True"
| "is_send w = False"

fun is_holding :: "worker_pc \<Rightarrow> bool" where
  "is_holding (W_load p) = True"
| "is_holding (W_add p) = True"
| "is_holding w = False"

fun in_hand :: "string \<Rightarrow> worker_pc \<Rightarrow> bool" where
  "in_hand p (W_load q) = (p = q)"
| "in_hand p (W_add q) = (p = q)"
| "in_hand p (W_verify q) = (p = q)"
| "in_hand p (W_cas q) = (p = q)"
| "in_hand p w = False"

definition count_pc :: "(worker_pc \<Rightarrow> bool) \<Rightarrow> search_state \<Rightarrow> nat" where
  "count_pc Q s = length (filter Q (workers s))"

text \<open>A worker drains or sends only after the flag was set.\<close>

definition flag_inv :: "search_state \<Rightarrow> bool" where
  "flag_inv s = (\<forall>w \<in> set (workers s). (w = W_drain \<or> is_send w) \<longrightarrow> found s)"

definition chan_inv :: "search_state \<Rightarrow> bool" where
  "chan_inv s = ((chan_closed s \<longrightarrow> pending s = []) \<and> (gen_done s \<longrightarrow> chan_closed s))"

text \<open>The counter: every attempt is a candidate some worker received.\<close>

definition count_inv :: "action list \<Rightarrow> search_state \<Rightarrow> bool" where
  "count_inv as s =
     (tried s = of_nat (attempts as)
      \<and> attempts as + count_pc is_holding s \<le> length (receptions as)
      \<and> (\<not> found s \<longrightarrow> attempts as + count_pc is_holding s = length (receptions as)))"

text \<open>A worker that left its loop while the flag is unset saw the channel closed and empty.\<close>

definition exit_inv :: "search_state \<Rightarrow> bool" where
  "exit_inv s =
     (W_exit \<in> set (workers s) \<longrightarrow> found s \<or> (chan_closed s \<and> passwords s = []))"

text \<open>While the flag is unset, a received candidate that verifies is still in a worker's hands.\<close>

definition match_inv :: "kdf \<Rightarrow> ScryptData \<Rightarrow> action list \<Rightarrow> search_state \<Rightarrow> bool" where
  "match_inv key data as s =
     (\<not> found s \<longrightarrow>
        (\<forall>p \<in> set (receptions as). verifyPassword key p data = Some True \<longrightarrow>
           (\<exists>j < length (workers s). in_hand p (workers s ! j))))"

definition search_inv :: "kdf \<Rightarrow> ScryptData \<Rightarrow> string list \<Rightarrow> nat \<Rightarrow> action list \<Rightarrow> search_state \<Rightarrow> bool" where
  "search_inv key data out n as s =
     (flag_inv s \<and> chan_inv s \<and> exit_inv s
      \<and> receptions as @ passwords s @ pending s = out
      \<and> length (deliveries as) + count_pc is_send s = (if found s then 1 else 0)
      \<and> count_inv as s
      \<and> match_inv key data as s
      \<and> length (workers s) = n)"

text \<open>The invariant of a search whose generator sends nothing.\<close>

definition idle_inv :: "search_state \<Rightarrow> bool" where
  "idle_inv s =
     (pending s = [] \<and> passwords s = [] \<and> \<not> found s \<and> tried s = 0 \<and> result s = []
      \<and> (\<forall>k < length (workers s). workers s ! k = W_range \<or> workers s ! k = W_exit)
      \<and> (driver s = D_select \<or> driver s = D_not_found
           \<or> driver s = D_exit (PasswordNotFound 0)))"

text \<open>
  The state in which the generator has filled the channel, closed it and released the
  wait group, and \<open>main\<close> has taken the \<open>done\<close> signal and printed its report, while no
  worker has made a step.
\<close>

definition early_report :: "string list \<Rightarrow> nat \<Rightarrow> search_state" where
  "early_report out n =
     \<lparr>pending = [], passwords = out, chan_closed = True, gen_done = True, found = False,
      tried = 0, result = [], workers = replicate n W_range,
      driver = D_exit (PasswordNotFound 0)\<rparr>"

text \<open>
  A bound on the number of steps a state can still make: every step lowers it.
\<close>

fun rank :: "worker_pc \<Rightarrow> nat" where
  "rank W_exit = 0"
| "rank W_panic = 0"
| "rank (W_send p) = 1"
| "rank (W_cas p) = 2"
| "rank W_range = 3"
| "rank W_drain = 3"
| "rank (W_verify p) = 4"
| "rank (W_add p) = 5"
| "rank (W_load p) = 6"

fun driver_rank :: "driver_pc \<Rightarrow> nat" where
  "driver_rank D_select = 2"
| "driver_rank (D_found p) = 1"
| "driver_rank D_not_found = 1"
| "driver_rank (D_exit r) = 0"

definition remaining :: "search_state \<Rightarrow> nat" where
  "remaining s =
     10 * length (pending s) + 9 * length (passwords s)
       + (if chan_closed s then 0 else 2) + (if gen_done s then 0 else 1)
       + sum_list (map rank (workers s)) + driver_rank (driver s)"

section \<open>Properties of the generator\<close>

lemma at_index_Some [simp]: "i < length xs \<Longrightarrow> at_index xs i = Some (xs ! i)"
  by (simp add: at_index_def)

lemma at_index_None [simp]: "length xs \<le> i \<Longrightarrow> at_index xs i = None"
  by (simp add: at_index_def)

lemma fill_charsets_Some:
  "fill_charsets msk = Some cs \<longleftrightarrow> (cs = map getCharset msk \<and> (\<forall>m \<in> set msk. getCharset m \<noteq> []))"
  by (induction msk arbitrary: cs) (auto simp: Let_def split: option.splits)

lemma fill_charsets_None:
  "fill_charsets msk = None \<longleftrightarrow> (\<exists>m \<in> set msk. getCharset m = [])"
  by (induction msk) (auto simp: Let_def split: option.splits)

lemma fill_password_map:
  assumes "length charsets = n" "length ind = n" "index_ok charsets ind" "\<forall>i \<in> set is. i < n"
  shows "fill_password charsets ind is = Some (map (\<lambda>i. charsets ! i ! (ind ! i)) is)"
  using assms(4)
proof (induction "is")
  case Nil
  then show ?case by simp
next
  case (Cons i "is")
  then have "i < n" by simp
  moreover have "ind ! i < length (charsets ! i)"
    using assms(3) \<open>i < n\<close> assms(1) by (simp add: index_ok_def list_all2_conv_all_nth)
  ultimately show ?case using Cons assms(1,2) by simp
qed

lemma fill_password_upt:
  assumes "length charsets = n" "length ind = n" "index_ok charsets ind"
  shows "fill_password charsets ind [0..<n] = Some (map2 (\<lambda>c i. c ! i) charsets ind)"
proof -
  have "fill_password charsets ind [0..<n] = Some (map (\<lambda>i. charsets ! i ! (ind ! i)) [0..<n])"
    using assms by (intro fill_password_map) auto
  moreover have "map (\<lambda>i. charsets ! i ! (ind ! i)) [0..<n] = map2 (\<lambda>c i. c ! i) charsets ind"
    using assms(1,2) by (intro nth_equalityI) auto
  ultimately show ?thesis by simp
qed

lemma carry_loop_False [simp]: "carry_loop charsets k ind False = Some (ind, False)"
  by (cases k) auto

lemma index_value_snoc:
  "length cs = length xs \<Longrightarrow> index_value (cs @ [c]) (xs @ [x]) = index_value cs xs * length c + x"
  by (simp add: index_value_def)

lemma space_size_snoc: "space_size (cs @ [c]) = space_size cs * length c"
  by (simp add: space_size_def)

lemma index_ok_snoc:
  "length cs = length xs \<Longrightarrow> index_ok (cs @ [c]) (xs @ [x]) \<longleftrightarrow> index_ok cs xs \<and> x < length c"
  by (simp add: index_ok_def list_all2_append)

lemma index_value_less: "index_ok cs xs \<Longrightarrow> index_value cs xs < space_size cs"
proof (induction cs arbitrary: xs rule: rev_induct)
  case Nil
  then show ?case by (simp add: index_value_def space_size_def)
next
  case (snoc c cs)
  from snoc.prems have len: "length xs = Suc (length cs)"
    by (auto simp: index_ok_def dest: list_all2_lengthD)
  then obtain xs0 x where xs: "xs = xs0 @ [x]" and len0: "length cs = length xs0"
    by (metis length_Suc_conv_rev)
  from snoc.prems have ok0: "index_ok cs xs0" and x: "x < length c"
    using index_ok_snoc[OF len0] by (auto simp: xs)
  have "index_value cs xs0 < space_size cs" by (rule snoc.IH[OF ok0])
  then have "Suc (index_value cs xs0) \<le> space_size cs" by simp
  then have "Suc (index_value cs xs0) * length c \<le> space_size cs * length c"
    by (rule mult_le_mono1)
  then show ?case using x by (simp add: xs index_value_snoc[OF len0] space_size_snoc)
qed

lemma carry_loop_step:
  assumes "length cxs = k" "length xs = k" "index_ok cxs xs"
  shows "\<exists>xs' carry. carry_loop (cxs @ cys) k (xs @ ys) True = Some (xs' @ ys, carry) \<and>
           length xs' = k \<and>
           (if index_value cxs xs + 1 < space_size cxs
            then \<not> carry \<and> index_ok cxs xs' \<and> index_value cxs xs' = index_value cxs xs + 1
            else carry)"
  using assms
proof (induction k arbitrary: cxs xs ys cys)
  case 0
  then show ?case by (auto simp: index_value_def space_size_def)
next
  case (Suc k)
  obtain xs0 x where xs: "xs = xs0 @ [x]" and lx: "length xs0 = k"
    using Suc.prems(2) by (metis length_Suc_conv_rev)
  obtain cs0 c where cs: "cxs = cs0 @ [c]" and lc: "length cs0 = k"
    using Suc.prems(1) by (metis length_Suc_conv_rev)
  have len0: "length cs0 = length xs0" using lx lc by simp
  from Suc.prems(3) have ok0: "index_ok cs0 xs0" and x: "x < length c"
    using index_ok_snoc[OF len0] by (auto simp: xs cs)
  have atx: "at_index (xs @ ys) k = Some x"
    using lx by (simp add: xs at_index_def nth_append)
  have atc: "at_index (cxs @ cys) k = Some c"
    using lc by (simp add: cs at_index_def nth_append)
  have v: "index_value cxs xs = index_value cs0 xs0 * length c + x"
    by (simp add: xs cs index_value_snoc[OF len0])
  have sz: "space_size cxs = space_size cs0 * length c"
    by (simp add: cs space_size_snoc)
  have less0: "index_value cs0 xs0 < space_size cs0" by (rule index_value_less[OF ok0])
  show ?case
  proof (cases "x + 1 < length c")
    case True
    have upd: "(xs @ ys)[k := x + 1] = (xs0 @ [x + 1]) @ ys"
      using lx by (simp add: xs list_update_append)
    have "index_value cs0 xs0 * length c + x + 1 < space_size cs0 * length c"
    proof -
      have "index_value cs0 xs0 * length c + (x + 1) < index_value cs0 xs0 * length c + length c"
        using True by simp
      also have "\<dots> = Suc (index_value cs0 xs0) * length c" by simp
      also have "\<dots> \<le> space_size cs0 * length c"
        using less0 by (intro mult_le_mono1) simp
      finally show ?thesis by simp
    qed
    moreover have "index_value cxs (xs0 @ [x + 1]) = index_value cxs xs + 1"
      by (simp add: xs cs index_value_snoc[OF len0])
    moreover have "index_ok cxs (xs0 @ [x + 1])"
      using ok0 True by (simp add: cs index_ok_snoc[OF len0])
    moreover have "carry_loop (cxs @ cys) (Suc k) (xs @ ys) True = Some ((xs0 @ [x + 1]) @ ys, False)"
      using True atx atc upd by simp
    ultimately show ?thesis
      using lx by (intro exI[of _ "xs0 @ [x + 1]"] exI[of _ False]) (simp add: v sz)
  next
    case False
    then have xeq: "x + 1 = length c" using x by simp
    have upd: "(xs @ ys)[k := 0] = xs0 @ (0 # ys)"
      using lx by (simp add: xs list_update_append)
    have cseq: "cxs @ cys = cs0 @ (c # cys)" by (simp add: cs)
    from Suc.IH[OF lc lx ok0, of "c # cys" "0 # ys"]
    obtain xs' carry where
      run: "carry_loop (cs0 @ c # cys) k (xs0 @ 0 # ys) True = Some (xs' @ 0 # ys, carry)"
      and lx': "length xs' = k"
      and eff: "if index_value cs0 xs0 + 1 < space_size cs0
            then \<not> carry \<and> index_ok cs0 xs' \<and> index_value cs0 xs' = index_value cs0 xs0 + 1
            else carry"
      by blast
    have vv: "index_value cxs xs + 1 = (index_value cs0 xs0 + 1) * length c"
      using xeq by (simp add: v)
    have cmp: "index_value cxs xs + 1 < space_size cxs \<longleftrightarrow> index_value cs0 xs0 + 1 < space_size cs0"
      using x by (cases c) (simp_all add: vv sz del: One_nat_def add_Suc_right)
    have len0': "length cs0 = length xs'" using lx' lc by simp
    have "carry_loop (cxs @ cys) (Suc k) (xs @ ys) True = Some ((xs' @ [0]) @ ys, carry)"
      using False atx atc run by (simp add: upd cseq)
    moreover have "length (xs' @ [0]) = Suc k" using lx' by simp
    moreover have "if index_value cxs xs + 1 < space_size cxs
            then \<not> carry \<and> index_ok cxs (xs' @ [0]) \<and> index_value cxs (xs' @ [0]) = index_value cxs xs + 1
            else carry"
    proof (cases "index_value cs0 xs0 + 1 < space_size cs0")
      case True
      with eff have "\<not> carry" "index_ok cs0 xs'" "index_value cs0 xs' = index_value cs0 xs0 + 1"
        by simp_all
      moreover have "0 < length c" using x by (cases c) simp_all
      then have "index_ok cxs (xs' @ [0])"
        using \<open>index_ok cs0 xs'\<close> by (simp add: cs index_ok_snoc[OF len0'])
      moreover have "index_value cxs (xs' @ [0]) = (index_value cs0 xs0 + 1) * length c"
        using \<open>index_value cs0 xs' = index_value cs0 xs0 + 1\<close>
        by (simp add: cs index_value_snoc[OF len0'])
      ultimately show ?thesis
        using True cmp vv by simp
    next
      case False
      with eff cmp show ?thesis by simp
    qed
    ultimately show ?thesis by blast
  qed
qed

lemma carry_loop_full:
  assumes "length cs = length ind" "index_ok cs ind"
  shows "\<exists>ind' carry. carry_loop cs (length ind) ind True = Some (ind', carry) \<and>
           length ind' = length ind \<and>
           (if index_value cs ind + 1 < space_size cs
            then \<not> carry \<and> index_ok cs ind' \<and> index_value cs ind' = index_value cs ind + 1
            else carry)"
  using carry_loop_step[OF assms(1) refl assms(2), of "[]" "[]"] by simp

lemma index_value_Cons:
  "length cs = length xs \<Longrightarrow>
   index_value (c # cs) (x # xs) = x * space_size cs + index_value cs xs"
proof (induction cs arbitrary: xs rule: rev_induct)
  case Nil
  then show ?case by (simp add: index_value_def space_size_def)
next
  case (snoc d cs)
  then obtain xs0 y where xs: "xs = xs0 @ [y]" and len0: "length cs = length xs0"
    by (metis length_Suc_conv_rev length_append_singleton)
  have "index_value ((c # cs) @ [d]) ((x # xs0) @ [y]) = index_value (c # cs) (x # xs0) * length d + y"
    by (rule index_value_snoc) (simp add: len0)
  then show ?case
    using snoc.IH[OF len0] by (simp add: xs index_value_snoc[OF len0] space_size_snoc algebra_simps)
qed

lemma length_product_lists_space: "length (product_lists cs) = space_size cs"
  by (simp add: space_size_def length_product_lists prod_list.eq_foldr)

lemma nth_concat_blocks:
  assumes "\<forall>x \<in> set xs. length (f x) = t" "i < length xs" "v < t"
  shows "concat (map f xs) ! (i * t + v) = f (xs ! i) ! v"
  using assms
proof (induction xs arbitrary: i)
  case Nil
  then show ?case by simp
next
  case (Cons a xs)
  show ?case
  proof (cases i)
    case 0
    then show ?thesis using Cons.prems by (simp add: nth_append)
  next
    case (Suc j)
    then have "concat (map f xs) ! (j * t + v) = f (xs ! j) ! v"
      using Cons by auto
    then show ?thesis using Cons.prems Suc by (simp add: nth_append)
  qed
qed

lemma product_lists_nth:
  assumes "length cs = length ind" "index_ok cs ind"
  shows "product_lists cs ! index_value cs ind = map2 (\<lambda>c i. c ! i) cs ind"
  using assms
proof (induction cs arbitrary: ind)
  case Nil
  then show ?case by (simp add: index_value_def)
next
  case (Cons c cs)
  then obtain i "is" where ind: "ind = i # is" and len: "length cs = length is"
    by (cases ind) auto
  from Cons.prems(2) have i: "i < length c" and ok: "index_ok cs is"
    by (auto simp: ind index_ok_def)
  have v: "index_value cs is < length (product_lists cs)"
    using index_value_less[OF ok] by (simp add: length_product_lists_space)
  have "concat (map (\<lambda>x. map ((#) x) (product_lists cs)) c)
          ! (i * length (product_lists cs) + index_value cs is)
        = map ((#) (c ! i)) (product_lists cs) ! index_value cs is"
    by (rule nth_concat_blocks) (use i v in auto)
  then show ?case
    using v Cons.IH[OF len ok]
    by (simp add: ind index_value_Cons[OF len] length_product_lists_space)
qed

lemma gen_loop_drop:
  assumes "length cs = n" "length ind = n" "index_ok cs ind"
  shows "gen_loop n cs ind = Some (drop (index_value cs ind) (product_lists cs))"
  using assms
proof (induction "space_size cs - index_value cs ind" arbitrary: ind rule: less_induct)
  case less
  let ?v = "index_value cs ind"
  let ?P = "product_lists cs"
  have len: "length cs = length ind" using less.prems by simp
  have vlt: "?v < length ?P"
    using index_value_less[OF less.prems(3)] by (simp add: length_product_lists_space)
  have pw: "fill_password cs ind [0..<n] = Some (?P ! ?v)"
    using fill_password_upt[OF less.prems] product_lists_nth[OF len less.prems(3)] by simp
  obtain ind' carry where
    run: "carry_loop cs (length ind) ind True = Some (ind', carry)"
    and len': "length ind' = length ind"
    and eff: "if ?v + 1 < space_size cs
            then \<not> carry \<and> index_ok cs ind' \<and> index_value cs ind' = ?v + 1
            else carry"
    using carry_loop_full[OF len less.prems(3)] by blast
  show ?case
  proof (cases "?v + 1 < space_size cs")
    case True
    with eff have nc: "\<not> carry" and ok': "index_ok cs ind'" and v': "index_value cs ind' = ?v + 1"
      by simp_all
    have "gen_loop n cs ind' = Some (drop (index_value cs ind') ?P)"
      by (rule less.hyps) (use True v' ok' len' less.prems in auto)
    then have "gen_loop n cs ind = Some (?P ! ?v # drop (Suc ?v) ?P)"
      using pw run nc v' by (subst gen_loop.simps) simp
    then show ?thesis using vlt by (simp add: Cons_nth_drop_Suc)
  next
    case False
    with eff have c: carry by simp
    from False vlt have "Suc ?v = length ?P" by (simp add: length_product_lists_space)
    then have "drop ?v ?P = [?P ! ?v]"
      by (metis Cons_nth_drop_Suc drop_all le_refl lessI)
    moreover have "gen_loop n cs ind = Some [?P ! ?v]"
      using pw run c by (subst gen_loop.simps) simp
    ultimately show ?thesis by simp
  qed
qed

lemma index_ok_zero: "\<forall>c \<in> set cs. c \<noteq> [] \<Longrightarrow> index_ok cs (replicate (length cs) 0)"
  by (induction cs) (auto simp: index_ok_def)

lemma index_value_zero: "index_value cs (replicate (length cs) 0) = 0"
  by (induction cs) (simp_all add: index_value_def)

lemma generatePasswords_valid:
  assumes "\<forall>m \<in> set msk. getCharset m \<noteq> []"
  shows "generatePasswords msk = Some (product_lists (map getCharset msk))"
proof -
  let ?cs = "map getCharset msk"
  have fc: "fill_charsets msk = Some ?cs" using assms by (simp add: fill_charsets_Some)
  have ok: "index_ok ?cs (replicate (length ?cs) 0)"
    by (rule index_ok_zero) (use assms in auto)
  have "gen_loop (length msk) ?cs (replicate (length ?cs) 0)
          = Some (drop (index_value ?cs (replicate (length ?cs) 0)) (product_lists ?cs))"
    by (rule gen_loop_drop) (use ok in auto)
  then show ?thesis
    using index_value_zero[of ?cs] by (simp add: generatePasswords_def fc)
qed

lemma generatePasswords_invalid:
  assumes "\<exists>m \<in> set msk. getCharset m = []"
  shows "generatePasswords msk = Some []"
  using assms by (simp add: generatePasswords_def fill_charsets_None[symmetric])


lemma space_size_Cons: "space_size (c # cs) = length c * space_size cs"
  by (simp add: space_size_def)

lemma space_size_split:
  assumes "j < length cs"
  shows "space_size cs = space_size (take j cs) * (length (cs ! j) * space_size (drop (Suc j) cs))"
proof -
  have "cs = take j cs @ cs ! j # drop (Suc j) cs"
    using assms by (simp add: id_take_nth_drop)
  then have "space_size cs = space_size (take j cs @ cs ! j # drop (Suc j) cs)" by simp
  then show ?thesis by (simp add: space_size_def)
qed

lemma digit_of_mod:
  fixes k :: nat
  assumes "0 < w"
  shows "((k mod (a * (r * w))) div w) mod r = (k div w) mod r"
proof -
  have "k mod (w * (a * r)) = w * (k div w mod (a * r)) + k mod w"
    by (rule mod_mult2_eq)
  then have "(k mod (a * (r * w))) div w = (k div w) mod (a * r)"
    using assms by (simp add: ac_simps)
  then show ?thesis by (simp add: mod_mod_cancel)
qed

lemma product_lists_digit:
  assumes "k < space_size cs" "i < length cs"
  shows "product_lists cs ! k ! i
           = (cs ! i) ! ((k div space_size (drop (Suc i) cs)) mod length (cs ! i))"
  using assms
proof (induction cs arbitrary: k i)
  case Nil
  then show ?case by simp
next
  case (Cons c cs)
  let ?t = "space_size cs"
  have kk: "k < length c * ?t" using Cons.prems(1) by (simp add: space_size_Cons)
  then have tpos: "0 < ?t" by (cases "?t") auto
  have q: "k div ?t < length c" using kk tpos by (simp add: less_mult_imp_div_less mult.commute)
  have v: "k mod ?t < ?t" using tpos by simp
  have "concat (map (\<lambda>x. map ((#) x) (product_lists cs)) c) ! ((k div ?t) * ?t + k mod ?t)
          = map ((#) (c ! (k div ?t))) (product_lists cs) ! (k mod ?t)"
    by (rule nth_concat_blocks) (use q v in \<open>auto simp: length_product_lists_space\<close>)
  then have nth: "product_lists (c # cs) ! k = (c ! (k div ?t)) # (product_lists cs ! (k mod ?t))"
    using v by (simp add: length_product_lists_space)
  show ?case
  proof (cases i)
    case 0
    then show ?thesis using q by (simp add: nth del: product_lists.simps)
  next
    case (Suc j)
    then have j: "j < length cs" using Cons.prems(2) by simp
    let ?w = "space_size (drop (Suc j) cs)"
    let ?r = "length (cs ! j)"
    have split: "?t = space_size (take j cs) * (?r * ?w)" by (rule space_size_split[OF j])
    have wpos: "0 < ?w" using tpos split by (cases "?w") auto
    have "product_lists cs ! (k mod ?t) ! j = (cs ! j) ! (((k mod ?t) div ?w) mod ?r)"
      by (rule Cons.IH[OF v j])
    moreover have "((k mod ?t) div ?w) mod ?r = (k div ?w) mod ?r"
      using digit_of_mod[OF wpos, of k "space_size (take j cs)" ?r] split by simp
    ultimately show ?thesis by (simp add: nth Suc del: product_lists.simps)
  qed
qed

lemma getCharset_empty_iff: "getCharset m = [] \<longleftrightarrow> m \<notin> mask_symbols"
  by (simp add: getCharset_def mask_symbols_def)

lemma distinct_getCharset: "distinct (getCharset m)"
  by (simp add: getCharset_def)

lemma total_loop_product:
  "total_loop tot msk = tot * of_nat (charset_product msk)"
  by (induction msk arbitrary: tot) (simp_all add: charset_product_def)

lemma calculateTotalCombinations_product:
  "calculateTotalCombinations msk = of_nat (charset_product msk)"
  by (simp add: calculateTotalCombinations_def total_loop_product)

lemma space_size_map_getCharset: "space_size (map getCharset msk) = charset_product msk"
  by (simp add: space_size_def charset_product_def comp_def)

lemma charset_product_invalid:
  "\<exists>m \<in> set msk. m \<notin> mask_symbols \<Longrightarrow> charset_product msk = 0"
  by (auto simp: charset_product_def prod_list_zero_iff getCharset_empty_iff[symmetric] intro!: bexI)


lemma generatePasswords_total: "\<exists>out. generatePasswords msk = Some out"
proof (cases "\<exists>m \<in> set msk. getCharset m = []")
  case True
  then show ?thesis by (simp add: generatePasswords_invalid)
next
  case False
  then show ?thesis by (simp add: generatePasswords_valid)
qed

lemma length_generatePasswords:
  assumes "generatePasswords msk = Some out"
  shows "length out = charset_product msk"
proof (cases "\<exists>m \<in> set msk. getCharset m = []")
  case True
  then have "out = []" using assms by (simp add: generatePasswords_invalid)
  moreover have "charset_product msk = 0"
    using True by (intro charset_product_invalid) (simp add: getCharset_empty_iff)
  ultimately show ?thesis by simp
next
  case False
  then have "out = product_lists (map getCharset msk)"
    using assms by (simp add: generatePasswords_valid)
  then show ?thesis
    by (simp add: length_product_lists_space space_size_map_getCharset)
qed

lemma length_getCharset_a: "length (getCharset CHR ''a'') = 62"
  by (simp add: getCharset_def)

lemma length_getCharset_d: "length (getCharset CHR ''d'') = 10"
  by (simp add: getCharset_def)

lemma charset_product_replicate:
  "charset_product (replicate n m) = length (getCharset m) ^ n"
  by (induction n) (simp_all add: charset_product_def)

section \<open>Properties of the record format\<close>

subsection \<open>Decimal numerals\<close>

lemma digit_table_mem: "(d::nat) < 10 \<Longrightarrow> ''0123456789'' ! d \<in> digit_chars"
proof -
  assume "d < 10"
  then have "d \<in> {0, 1, 2, 3, 4, 5, 6, 7, 8, 9}" by auto
  then show ?thesis by (auto simp: digit_chars_def)
qed

lemma digit_table_value: "(d::nat) < 10 \<Longrightarrow> (of_char (''0123456789'' ! d) :: nat) = 48 + d"
proof -
  assume "d < 10"
  then have "d \<in> {0, 1, 2, 3, 4, 5, 6, 7, 8, 9}" by auto
  then show ?thesis by auto
qed

lemma digit_chars_is_digit: "c \<in> digit_chars \<Longrightarrow> is_digit c"
  by (auto simp: digit_chars_def is_digit_def)

lemma decimal_digits: "set (decimal n) \<subseteq> digit_chars"
proof (induction n rule: decimal.induct)
  case (1 n)
  show ?case
  proof (cases "n < 10")
    case True
    then show ?thesis by (subst decimal.simps) (simp add: digit_table_mem)
  next
    case False
    then have "set (decimal (n div 10)) \<subseteq> digit_chars" by (rule 1)
    moreover have "''0123456789'' ! (n mod 10) \<in> digit_chars" by (rule digit_table_mem) simp
    ultimately show ?thesis using False by (subst decimal.simps) simp
  qed
qed

lemma decimal_nonempty: "decimal n \<noteq> []"
  by (subst decimal.simps) simp

lemma digits_value_append:
  "digits_value acc (xs @ ys) = digits_value (digits_value acc xs) ys"
  by (induction xs arbitrary: acc) simp_all

lemma digits_value_decimal: "digits_value 0 (decimal n) = n"
proof (induction n rule: decimal.induct)
  case (1 n)
  show ?case
  proof (cases "n < 10")
    case True
    then show ?thesis by (subst decimal.simps) (simp add: digit_table_value)
  next
    case False
    then have "digits_value 0 (decimal (n div 10)) = n div 10" by (rule 1)
    moreover have "(of_char (''0123456789'' ! (n mod 10)) :: nat) = 48 + n mod 10"
      by (rule digit_table_value) simp
    ultimately show ?thesis
      using False by (subst decimal.simps) (simp add: digits_value_append)
  qed
qed

lemma digits_value_ge: "n \<le> digits_value n cs"
proof (induction cs arbitrary: n)
  case Nil
  show ?case by simp
next
  case (Cons c cs)
  have "n \<le> n * 10 + (of_char c - 48)" by simp
  also have "\<dots> \<le> digits_value (n * 10 + (of_char c - 48)) cs" by (rule Cons.IH)
  finally show ?case by simp
qed

lemma scan_digits_value:
  "list_all is_digit cs \<Longrightarrow> digits_value n cs < 2 ^ 64 \<Longrightarrow>
   scan_digits n cs = Inr (digits_value n cs)"
proof (induction cs arbitrary: n)
  case Nil
  show ?case by simp
next
  case (Cons c cs)
  let ?m = "n * 10 + (of_char c - 48)"
  have d: "is_digit c" and all: "list_all is_digit cs" using Cons.prems(1) by simp_all
  have v: "digits_value ?m cs < 2 ^ 64" using Cons.prems(2) by simp
  have "?m \<le> digits_value ?m cs" by (rule digits_value_ge)
  then have small: "\<not> 2 ^ 64 \<le> ?m" using v by linarith
  have "scan_digits ?m cs = Inr (digits_value ?m cs)" using all v by (rule Cons.IH)
  then show ?case using d small by simp
qed

lemma scan_digits_decimal: "n < 2 ^ 64 \<Longrightarrow> scan_digits 0 (decimal n) = Inr n"
proof -
  assume n: "n < 2 ^ 64"
  have all: "list_all is_digit (decimal n)"
    using decimal_digits[of n] by (auto simp: list_all_iff digit_chars_is_digit)
  have "digits_value 0 (decimal n) < 2 ^ 64" using n by (simp add: digits_value_decimal)
  with all have "scan_digits 0 (decimal n) = Inr (digits_value 0 (decimal n))"
    by (rule scan_digits_value)
  then show ?thesis by (simp add: digits_value_decimal)
qed

lemma hd_decimal: "hd (decimal n) \<in> digit_chars"
  using decimal_digits[of n] decimal_nonempty[of n] by (cases "decimal n") auto

lemma Atoi_fmt_d: "Atoi (fmt_d i) = Inr i"
proof (cases "sint i < 0")
  case True
  let ?v = "nat (- sint i)"
  have s: "fmt_d i = CHR ''-'' # decimal ?v" using True by (simp add: fmt_d_def)
  have "- sint i \<le> 2 ^ 63" using sint_ge[of i] by simp
  then have le: "\<not> 2 ^ 63 < ?v" by (simp add: nat_le_iff not_less)
  then have "?v < 2 ^ 64" by simp
  then have all: "scan_digits 0 (decimal ?v) = Inr ?v" by (rule scan_digits_decimal)
  have "(of_nat ?v :: go_int) = of_int (- sint i)"
    using True by (simp add: of_nat_nat)
  then have "- (of_nat ?v :: go_int) = i" by simp
  then show ?thesis
    using all le by (simp add: Atoi_def s decimal_nonempty Let_def)
next
  case False
  let ?v = "nat (sint i)"
  have s: "fmt_d i = decimal ?v" using False by (simp add: fmt_d_def)
  have hd: "hd (decimal ?v) \<noteq> CHR ''-''" "hd (decimal ?v) \<noteq> CHR ''+''"
    using hd_decimal[of ?v] by (auto simp: digit_chars_def)
  have "sint i < 2 ^ 63" using sint_lt[of i] by simp
  then have lt: "\<not> 2 ^ 63 \<le> ?v" by (simp add: nat_less_iff not_le)
  then have "?v < 2 ^ 64" by simp
  then have all: "scan_digits 0 (decimal ?v) = Inr ?v" by (rule scan_digits_decimal)
  have "(of_nat ?v :: go_int) = of_int (sint i)"
    using False by (simp add: of_nat_nat)
  then have "(of_nat ?v :: go_int) = i" by simp
  then show ?thesis
    using all lt hd by (simp add: Atoi_def s decimal_nonempty Let_def)
qed

lemma fmt_d_chars: "set (fmt_d i) \<subseteq> insert CHR ''-'' digit_chars"
  using decimal_digits by (auto simp: fmt_d_def)

lemma fmt_d_nonempty: "fmt_d i \<noteq> []"
  by (simp add: fmt_d_def decimal_nonempty)

subsection \<open>Hexadecimal\<close>

lemma nibble_cases:
  assumes "(x::nat) < 16"
  shows "x \<in> {0, 1, 2, 3, 4, 5, 6, 7} \<or> x \<in> {8, 9, 10, 11, 12, 13, 14, 15}"
proof (cases "x < 8")
  case True
  then show ?thesis by auto
next
  case False
  then have "x - 8 < 8" using assms by simp
  then have "x - 8 \<in> {0, 1, 2, 3, 4, 5, 6, 7}" by auto
  then show ?thesis using False by auto
qed

lemma hextable_mem: "(x::nat) < 16 \<Longrightarrow> hextable ! x \<in> hex_chars"
  using nibble_cases[of x] by (auto simp: hex_chars_def hextable_def)

lemma fromHexChar_hextable: "(x::nat) < 16 \<Longrightarrow> fromHexChar (hextable ! x) = Some x"
  using nibble_cases[of x] by (auto simp: fromHexChar_def hextable_def)

lemma byte_nibbles: "unat (b :: byte) div 16 < 16" "unat b mod 16 < 16"
  using unsigned_less[of b, where 'a=nat] by simp_all

lemma EncodeToString_chars: "set (EncodeToString src) \<subseteq> hex_chars"
  by (auto simp: EncodeToString_def hextable_mem byte_nibbles)

lemma EncodeToString_Cons:
  "EncodeToString (b # src) = hextable ! (unat b div 16) # hextable ! (unat b mod 16) # EncodeToString src"
  by (simp add: EncodeToString_def)

lemma DecodeString_EncodeToString: "DecodeString (EncodeToString src) = Inr src"
proof (induction src)
  case Nil
  then show ?case by (simp add: EncodeToString_def)
next
  case (Cons b src)
  have "(of_nat (unat b div 16 * 16 + unat b mod 16) :: byte) = b" by simp
  then show ?case
    using Cons by (simp add: EncodeToString_Cons fromHexChar_hextable byte_nibbles)
qed

subsection \<open>Splitting\<close>

lemma Split_no_sep: "sep \<notin> set a \<Longrightarrow> Split a sep = [a]"
  by (induction a) auto

lemma Split_append_sep: "sep \<notin> set a \<Longrightarrow> Split (a @ sep # b) sep = a # Split b sep"
  by (induction a) auto

subsection \<open>Trimming\<close>

lemma space_runes_nonempty: "r \<in> set space_runes \<Longrightarrow> r \<noteq> []"
  by (auto simp: space_runes_def)

lemma leading_space_none:
  assumes "c \<notin> hd ` set space_runes"
  shows "leading_space (c # cs) = 0"
proof -
  have "\<not> (\<exists>r \<in> set space_runes. take (length r) (c # cs) = r)"
  proof
    assume "\<exists>r \<in> set space_runes. take (length r) (c # cs) = r"
    then obtain r where r: "r \<in> set space_runes" "take (length r) (c # cs) = r" by blast
    from r(1) have "r \<noteq> []" by (rule space_runes_nonempty)
    then obtain x xs where "r = x # xs" by (cases r) auto
    with r(2) have "x = c" by simp
    with r(1) \<open>r = x # xs\<close> have "c \<in> hd ` set space_runes" by force
    with assms show False by simp
  qed
  then have "find (\<lambda>r. take (length r) (c # cs) = r) space_runes = None"
    by (simp add: find_None_iff)
  then show ?thesis by (simp add: leading_space_def)
qed

lemma trailing_space_none:
  assumes "c \<notin> last ` set space_runes"
  shows "trailing_space (cs @ [c]) = 0"
proof -
  let ?s = "cs @ [c]"
  have "\<not> (\<exists>r \<in> set space_runes. length r \<le> length ?s \<and> drop (length ?s - length r) ?s = r)"
  proof
    assume "\<exists>r \<in> set space_runes. length r \<le> length ?s \<and> drop (length ?s - length r) ?s = r"
    then obtain r where r: "r \<in> set space_runes" "length r \<le> length ?s"
      "drop (length ?s - length r) ?s = r" by blast
    have "r \<noteq> []" using r(1) by (rule space_runes_nonempty)
    then have "last r = last ?s"
      using r(2,3) by (metis last_drop diff_less length_greater_0_conv less_le_trans)
    then have "last r = c" by simp
    with r(1) have "c \<in> last ` set space_runes" by force
    with assms show False by simp
  qed
  then have "find (\<lambda>r. length r \<le> length ?s \<and> drop (length ?s - length r) ?s = r) space_runes = None"
    by (simp add: find_None_iff)
  then show ?thesis by (simp add: trailing_space_def)
qed

lemma trailing_space_newline: "trailing_space (s @ [CHR 0x0A]) = 1"
  by (simp add: trailing_space_def space_runes_def)

lemma record_chars_not_space:
  "c \<in> record_chars \<Longrightarrow> c \<notin> hd ` set space_runes"
  "c \<in> record_chars \<Longrightarrow> c \<notin> last ` set space_runes"
  by (auto simp: record_chars_def space_runes_def)

lemma TrimSpace_clean:
  assumes "s \<noteq> []" "hd s \<in> record_chars" "last s \<in> record_chars"
  shows "TrimSpace s = s" "TrimSpace (s @ [CHR 0x0A]) = s"
proof -
  obtain c cs where s: "s = c # cs" using assms(1) by (cases s) auto
  obtain d ds where s': "s = ds @ [d]" using assms(1) by (cases s rule: rev_cases) auto
  have c: "c \<notin> hd ` set space_runes" using assms(2) record_chars_not_space(1) by (simp add: s)
  have d: "d \<notin> last ` set space_runes" using assms(3) record_chars_not_space(2) by (simp add: s')
  have l0: "leading_space s = 0" unfolding s by (rule leading_space_none[OF c])
  have l1: "leading_space (s @ [CHR 0x0A]) = 0"
    unfolding s append_Cons by (rule leading_space_none[OF c])
  have t0: "trailing_space s = 0" unfolding s' by (rule trailing_space_none[OF d])
  show "TrimSpace s = s" by (simp add: TrimSpace_def l0 t0)
  have "TrimRight (s @ [CHR 0x0A]) = TrimRight s"
    by (subst TrimRight.simps) (simp add: trailing_space_newline)
  then show "TrimSpace (s @ [CHR 0x0A]) = s"
    by (simp add: TrimSpace_def l1 t0)
qed

lemma digit_chars_record: "digit_chars \<subseteq> record_chars" "hex_chars \<subseteq> record_chars"
  by (auto simp: digit_chars_def hex_chars_def record_chars_def)

lemma fmt_d_no_star: "CHR ''*'' \<notin> set (fmt_d i)"
  using fmt_d_chars[of i] by (auto simp: digit_chars_def)

lemma EncodeToString_no_star: "CHR ''*'' \<notin> set (EncodeToString src)"
  using EncodeToString_chars[of src] by (auto simp: hex_chars_def)

lemma gen_record_Cons:
  "gen_record n r p keyLen salt hashValue =
     fmt_d n @ CHR ''*'' # (fmt_d r @ CHR ''*'' # (fmt_d p @ CHR ''*'' # (fmt_d keyLen @ CHR ''*'' #
       (EncodeToString salt @ CHR ''*'' # EncodeToString hashValue))))"
  by (simp add: gen_record_def)

lemma Split_gen_record:
  "Split (gen_record n r p keyLen salt hashValue) CHR ''*''
     = [fmt_d n, fmt_d r, fmt_d p, fmt_d keyLen, EncodeToString salt, EncodeToString hashValue]"
proof -
  let ?e = "EncodeToString hashValue"
  let ?d = "EncodeToString salt @ CHR ''*'' # ?e"
  let ?c = "fmt_d keyLen @ CHR ''*'' # ?d"
  let ?b = "fmt_d p @ CHR ''*'' # ?c"
  let ?a = "fmt_d r @ CHR ''*'' # ?b"
  have "Split (fmt_d n @ CHR ''*'' # ?a) CHR ''*'' = fmt_d n # Split ?a CHR ''*''"
    by (rule Split_append_sep[OF fmt_d_no_star])
  also have "Split ?a CHR ''*'' = fmt_d r # Split ?b CHR ''*''"
    by (rule Split_append_sep[OF fmt_d_no_star])
  also have "Split ?b CHR ''*'' = fmt_d p # Split ?c CHR ''*''"
    by (rule Split_append_sep[OF fmt_d_no_star])
  also have "Split ?c CHR ''*'' = fmt_d keyLen # Split ?d CHR ''*''"
    by (rule Split_append_sep[OF fmt_d_no_star])
  also have "Split ?d CHR ''*'' = EncodeToString salt # Split ?e CHR ''*''"
    by (rule Split_append_sep[OF EncodeToString_no_star])
  also have "Split ?e CHR ''*'' = [?e]"
    by (rule Split_no_sep[OF EncodeToString_no_star])
  finally show ?thesis by (simp only: gen_record_Cons)
qed

lemma minus_star_record: "CHR ''-'' \<in> record_chars" "CHR ''*'' \<in> record_chars"
  by (simp_all add: record_chars_def)

lemma fmt_d_record_chars: "set (fmt_d i) \<subseteq> record_chars"
proof
  fix c assume "c \<in> set (fmt_d i)"
  then have "c = CHR ''-'' \<or> c \<in> digit_chars" using fmt_d_chars[of i] by blast
  then show "c \<in> record_chars"
    using minus_star_record(1) digit_chars_record(1) by blast
qed

lemma EncodeToString_record_chars: "set (EncodeToString src) \<subseteq> record_chars"
  using EncodeToString_chars[of src] digit_chars_record(2) by blast

lemma gen_record_chars: "set (gen_record n r p keyLen salt hashValue) \<subseteq> record_chars"
  unfolding gen_record_Cons
  using fmt_d_record_chars EncodeToString_record_chars minus_star_record(2)
  by (simp only: set_append set_simps Un_subset_iff insert_subset)

lemma gen_record_nonempty: "gen_record n r p keyLen salt hashValue \<noteq> []"
  by (simp add: gen_record_def fmt_d_nonempty)

lemma TrimSpace_gen_record:
  "TrimSpace (gen_record n r p keyLen salt hashValue) = gen_record n r p keyLen salt hashValue"
  "TrimSpace (gen_record n r p keyLen salt hashValue @ [CHR 0x0A]) = gen_record n r p keyLen salt hashValue"
proof -
  let ?s = "gen_record n r p keyLen salt hashValue"
  have ne: "?s \<noteq> []" by (rule gen_record_nonempty)
  then have "hd ?s \<in> set ?s" "last ?s \<in> set ?s" by simp_all
  then have "hd ?s \<in> record_chars" "last ?s \<in> record_chars"
    using gen_record_chars[of n r p keyLen salt hashValue] by auto
  then show "TrimSpace ?s = ?s" "TrimSpace (?s @ [CHR 0x0A]) = ?s"
    using TrimSpace_clean[OF ne] by simp_all
qed

lemma parseFile_gen_record:
  assumes "fs filename = Inr content"
    and "content = gen_record n r p keyLen salt hashValue
         \<or> content = gen_record n r p keyLen salt hashValue @ [CHR 0x0A]"
  shows "parseFile fs filename
           = Inr \<lparr>N = n, R = r, P = p, KeyLen = keyLen, Salt = salt, Hash = hashValue\<rparr>"
proof -
  have "TrimSpace content = gen_record n r p keyLen salt hashValue"
    using assms(2) TrimSpace_gen_record by auto
  then show ?thesis
    by (simp add: parseFile_def assms(1) Split_gen_record Atoi_fmt_d DecodeString_EncodeToString)
qed

section \<open>Properties of the concurrent search\<close>

lemma filter_update_length:
  assumes "k < length ws"
  shows "length (filter Q (ws[k := w])) + (if Q (ws ! k) then 1 else 0)
           = length (filter Q ws) + (if Q w then 1 else 0)"
proof -
  have a: "ws = take k ws @ ws ! k # drop (Suc k) ws"
    using assms by (simp add: id_take_nth_drop)
  have b: "ws[k := w] = take k ws @ w # drop (Suc k) ws"
    using assms by (simp add: upd_conv_take_nth_drop)
  have "length (filter Q ws) = length (filter Q (take k ws @ ws ! k # drop (Suc k) ws))"
    using a by simp
  then show ?thesis by (simp add: b)
qed

lemma count_pc_update:
  assumes "k < length (workers s)" "workers s' = (workers s)[k := w]"
  shows "count_pc Q s' + (if Q (workers s ! k) then 1 else 0)
           = count_pc Q s + (if Q w then 1 else 0)"
  using filter_update_length[OF assms(1), of Q w] by (simp add: count_pc_def assms(2))

lemma count_pc_same: "workers s' = workers s \<Longrightarrow> count_pc Q s' = count_pc Q s"
  by (simp add: count_pc_def)

lemma count_pc_zero: "count_pc Q s = 0 \<longleftrightarrow> (\<forall>w \<in> set (workers s). \<not> Q w)"
  by (simp add: count_pc_def filter_empty_conv)

lemma deliveries_snoc: "deliveries (as @ [a]) = deliveries as @ delivered a"
  by (simp add: deliveries_def)

lemma receptions_snoc: "receptions (as @ [a]) = receptions as @ received a"
  by (simp add: receptions_def)

lemma attempts_snoc: "attempts (as @ [a]) = attempts as + (if is_add a then 1 else 0)"
  by (simp add: attempts_def)

lemma step_found_stable: "step key data s a s' \<Longrightarrow> found s \<Longrightarrow> found s'"
  by (erule step.cases) auto

lemma step_length_workers: "step key data s a s' \<Longrightarrow> length (workers s') = length (workers s)"
  by (erule step.cases) auto

lemma flag_inv_step: "step key data s a s' \<Longrightarrow> flag_inv s \<Longrightarrow> flag_inv s'"
  by (erule step.cases) (auto simp: flag_inv_def dest!: set_update_subset_insert[THEN subsetD])

lemma chan_inv_step: "step key data s a s' \<Longrightarrow> chan_inv s \<Longrightarrow> chan_inv s'"
  by (erule step.cases) (auto simp: chan_inv_def)

lemma queue_step:
  "step key data s a s' \<Longrightarrow>
   receptions (as @ [a]) @ passwords s' @ pending s' = receptions as @ passwords s @ pending s"
  by (erule step.cases) (auto simp: receptions_snoc)

lemma winner_step:
  assumes "step key data s a s'"
    and "length (deliveries as) + count_pc is_send s = (if found s then 1 else 0)"
  shows "length (deliveries (as @ [a])) + count_pc is_send s' = (if found s' then 1 else 0)"
  using assms
proof (cases rule: step.cases)
  case (cas_win k p)
  from count_pc_update[of k s s' "W_send p" is_send] cas_win assms(2)
  show ?thesis by (simp add: deliveries_snoc)
next
  case (deliver k p)
  from count_pc_update[of k s s' W_exit is_send] deliver assms(2)
  show ?thesis by (simp add: deliveries_snoc split: if_splits)
next
  case (recv k p ps)
  from count_pc_update[of k s s' "W_load p" is_send] recv assms(2)
  show ?thesis by (simp add: deliveries_snoc)
next
  case (range_end k)
  from count_pc_update[of k s s' W_exit is_send] range_end assms(2)
  show ?thesis by (simp add: deliveries_snoc)
next
  case (load_found k p)
  from count_pc_update[of k s s' W_drain is_send] load_found assms(2)
  show ?thesis by (simp add: deliveries_snoc)
next
  case (load_not_found k p)
  from count_pc_update[of k s s' "W_add p" is_send] load_not_found assms(2)
  show ?thesis by (simp add: deliveries_snoc)
next
  case (drain_end k)
  from count_pc_update[of k s s' W_exit is_send] drain_end assms(2)
  show ?thesis by (simp add: deliveries_snoc)
next
  case (add k p)
  from count_pc_update[of k s s' "W_verify p" is_send] add assms(2)
  show ?thesis by (simp add: deliveries_snoc)
next
  case (verify_match k p)
  from count_pc_update[of k s s' "W_cas p" is_send] verify_match assms(2)
  show ?thesis by (simp add: deliveries_snoc)
next
  case (verify_mismatch k p)
  from count_pc_update[of k s s' W_range is_send] verify_mismatch assms(2)
  show ?thesis by (simp add: deliveries_snoc)
next
  case (verify_panic k p)
  from count_pc_update[of k s s' W_panic is_send] verify_panic assms(2)
  show ?thesis by (simp add: deliveries_snoc)
next
  case (cas_lose k p)
  from count_pc_update[of k s s' W_exit is_send] cas_lose assms(2)
  show ?thesis by (simp add: deliveries_snoc)
qed (simp_all add: deliveries_snoc count_pc_def)

lemma count_step:
  assumes "step key data s a s'" and "flag_inv s" and "count_inv as s"
  shows "count_inv (as @ [a]) s'"
  using assms(1)
proof (cases rule: step.cases)
  case (recv k p ps)
  from count_pc_update[of k s s' "W_load p" is_holding] recv assms(3)
  show ?thesis by (simp add: count_inv_def attempts_snoc receptions_snoc)
next
  case (range_end k)
  from count_pc_update[of k s s' W_exit is_holding] range_end assms(3)
  show ?thesis by (simp add: count_inv_def attempts_snoc receptions_snoc)
next
  case (load_found k p)
  from count_pc_update[of k s s' W_drain is_holding] load_found assms(3)
  show ?thesis by (simp add: count_inv_def attempts_snoc receptions_snoc)
next
  case (load_not_found k p)
  from count_pc_update[of k s s' "W_add p" is_holding] load_not_found assms(3)
  show ?thesis by (simp add: count_inv_def attempts_snoc receptions_snoc)
next
  case (drain k p ps)
  then have "W_drain \<in> set (workers s)" by (metis nth_mem)
  then have "found s" using assms(2) by (simp add: flag_inv_def)
  then show ?thesis
    using drain assms(3) by (simp add: count_inv_def attempts_snoc receptions_snoc count_pc_def)
next
  case (drain_end k)
  from count_pc_update[of k s s' W_exit is_holding] drain_end assms(3)
  show ?thesis by (simp add: count_inv_def attempts_snoc receptions_snoc)
next
  case (add k p)
  from count_pc_update[of k s s' "W_verify p" is_holding] add assms(3)
  show ?thesis by (auto simp: count_inv_def attempts_snoc receptions_snoc)
next
  case (verify_match k p)
  from count_pc_update[of k s s' "W_cas p" is_holding] verify_match assms(3)
  show ?thesis by (simp add: count_inv_def attempts_snoc receptions_snoc)
next
  case (verify_mismatch k p)
  from count_pc_update[of k s s' W_range is_holding] verify_mismatch assms(3)
  show ?thesis by (simp add: count_inv_def attempts_snoc receptions_snoc)
next
  case (verify_panic k p)
  from count_pc_update[of k s s' W_panic is_holding] verify_panic assms(3)
  show ?thesis by (simp add: count_inv_def attempts_snoc receptions_snoc)
next
  case (cas_win k p)
  from count_pc_update[of k s s' "W_send p" is_holding] cas_win assms(3)
  show ?thesis by (simp add: count_inv_def attempts_snoc receptions_snoc)
next
  case (cas_lose k p)
  from count_pc_update[of k s s' W_exit is_holding] cas_lose assms(3)
  show ?thesis by (simp add: count_inv_def attempts_snoc receptions_snoc)
next
  case (deliver k p)
  from count_pc_update[of k s s' W_exit is_holding] deliver assms(3)
  show ?thesis by (simp add: count_inv_def attempts_snoc receptions_snoc)
qed (use assms(3) in \<open>simp_all add: count_inv_def attempts_snoc receptions_snoc count_pc_def\<close>)

lemma exit_step:
  assumes "step key data s a s'" and "flag_inv s" and "chan_inv s" and "exit_inv s"
  shows "exit_inv s'"
  using assms(1)
proof (cases rule: step.cases)
  case (drain_end k)
  then show ?thesis by (simp add: exit_inv_def)
next
  case (range_end k)
  then show ?thesis by (simp add: exit_inv_def)
next
  case (cas_lose k p)
  then show ?thesis by (simp add: exit_inv_def)
next
  case (deliver k p)
  then have "W_send p \<in> set (workers s)" by (metis nth_mem)
  then have "found s" using assms(2) by (auto simp: flag_inv_def)
  then show ?thesis using deliver by (simp add: exit_inv_def)
qed (use assms(3,4) in \<open>auto simp: exit_inv_def chan_inv_def dest!: set_update_subset_insert[THEN subsetD]\<close>)

lemma in_hand_update:
  assumes "j < length ws" "in_hand p (ws ! j)" "k < length ws"
    and "in_hand p (ws ! k) \<longrightarrow> in_hand p w"
  shows "\<exists>j < length (ws[k := w]). in_hand p (ws[k := w] ! j)"
proof (cases "j = k")
  case True
  then show ?thesis using assms by (intro exI[of _ k]) simp
next
  case False
  then show ?thesis using assms by (intro exI[of _ j]) simp
qed

lemma match_step:
  assumes "step key data s a s'" and "flag_inv s" and "match_inv key data as s"
  shows "match_inv key data (as @ [a]) s'"
  using assms(1)
proof (cases rule: step.cases)
  case (recv k p ps)
  show ?thesis
    unfolding match_inv_def
  proof (intro impI ballI)
    fix q assume nf: "\<not> found s'" and q: "q \<in> set (receptions (as @ [a]))"
      and v: "verifyPassword key q data = Some True"
    show "\<exists>j < length (workers s'). in_hand q (workers s' ! j)"
    proof (cases "q \<in> set (receptions as)")
      case True
      then obtain j where "j < length (workers s)" "in_hand q (workers s ! j)"
        using assms(3) nf v recv by (auto simp: match_inv_def)
      then show ?thesis
        using recv in_hand_update[of j "workers s" q k "W_load p"] by simp
    next
      case False
      then have "q = p" using q recv by (simp add: receptions_snoc)
      then show ?thesis using recv by (intro exI[of _ k]) simp
    qed
  qed
next
  case (drain k p ps)
  then have "W_drain \<in> set (workers s)" by (metis nth_mem)
  then have "found s" using assms(2) by (simp add: flag_inv_def)
  then show ?thesis using drain by (simp add: match_inv_def)
next
  case (load_not_found k p)
  then show ?thesis
    using assms(3) in_hand_update[of _ "workers s" _ k "W_add p"]
    by (auto simp: match_inv_def receptions_snoc)
next
  case (add k p)
  then show ?thesis
    using assms(3) in_hand_update[of _ "workers s" _ k "W_verify p"]
    by (auto simp: match_inv_def receptions_snoc)
next
  case (verify_match k p)
  then show ?thesis
    using assms(3) in_hand_update[of _ "workers s" _ k "W_cas p"]
    by (auto simp: match_inv_def receptions_snoc)
next
  case (verify_mismatch k p)
  show ?thesis
    unfolding match_inv_def
  proof (intro impI ballI)
    fix q assume nf: "\<not> found s'" and q: "q \<in> set (receptions (as @ [a]))"
      and v: "verifyPassword key q data = Some True"
    then obtain j where j: "j < length (workers s)" "in_hand q (workers s ! j)"
      using assms(3) verify_mismatch by (auto simp: match_inv_def receptions_snoc)
    have "\<not> in_hand q (workers s ! k)" using verify_mismatch v by auto
    then show "\<exists>j < length (workers s'). in_hand q (workers s' ! j)"
      using verify_mismatch j in_hand_update[of j "workers s" q k W_range] by simp
  qed
next
  case (verify_panic k p)
  show ?thesis
    unfolding match_inv_def
  proof (intro impI ballI)
    fix q assume nf: "\<not> found s'" and q: "q \<in> set (receptions (as @ [a]))"
      and v: "verifyPassword key q data = Some True"
    then obtain j where j: "j < length (workers s)" "in_hand q (workers s ! j)"
      using assms(3) verify_panic by (auto simp: match_inv_def receptions_snoc)
    have "\<not> in_hand q (workers s ! k)" using verify_panic v by auto
    then show "\<exists>j < length (workers s'). in_hand q (workers s' ! j)"
      using verify_panic j in_hand_update[of j "workers s" q k W_panic] by simp
  qed
next
  case (range_end k)
  then show ?thesis
    using assms(3) in_hand_update[of _ "workers s" _ k W_exit]
    by (auto simp: match_inv_def receptions_snoc)
next
  case (drain_end k)
  then have "W_drain \<in> set (workers s)" by (metis nth_mem)
  then have "found s" using assms(2) by (simp add: flag_inv_def)
  then show ?thesis using drain_end by (simp add: match_inv_def)
next
  case (deliver k p)
  then have "W_send p \<in> set (workers s)" by (metis nth_mem)
  then have "found s" using assms(2) by (auto simp: flag_inv_def)
  then show ?thesis using deliver by (simp add: match_inv_def)
qed (use assms(3) in \<open>auto simp: match_inv_def receptions_snoc\<close>)

lemma search_inv_init: "search_inv key data out n [] (init out n)"
  by (auto simp: search_inv_def init_def flag_inv_def chan_inv_def exit_inv_def receptions_def
      deliveries_def count_pc_def count_inv_def attempts_def match_inv_def)

lemma search_inv_step:
  assumes "step key data s a s'" and "search_inv key data out n as s"
  shows "search_inv key data out n (as @ [a]) s'"
proof -
  from assms(2) have f: "flag_inv s" and c: "chan_inv s" and e: "exit_inv s"
    and q: "receptions as @ passwords s @ pending s = out"
    and w: "length (deliveries as) + count_pc is_send s = (if found s then 1 else 0)"
    and t: "count_inv as s" and m: "match_inv key data as s" and l: "length (workers s) = n"
    by (simp_all add: search_inv_def)
  have "flag_inv s'" by (rule flag_inv_step[OF assms(1) f])
  moreover have "chan_inv s'" by (rule chan_inv_step[OF assms(1) c])
  moreover have "exit_inv s'" by (rule exit_step[OF assms(1) f c e])
  moreover have "receptions (as @ [a]) @ passwords s' @ pending s' = out"
    using queue_step[OF assms(1), of as] q by simp
  moreover have "length (deliveries (as @ [a])) + count_pc is_send s' = (if found s' then 1 else 0)"
    by (rule winner_step[OF assms(1) w])
  moreover have "count_inv (as @ [a]) s'" by (rule count_step[OF assms(1) f t])
  moreover have "match_inv key data (as @ [a]) s'" by (rule match_step[OF assms(1) f m])
  moreover have "length (workers s') = n" using step_length_workers[OF assms(1)] l by simp
  ultimately show ?thesis by (simp add: search_inv_def)
qed

lemma exec_search_inv:
  "exec key data (init out n) as s \<Longrightarrow> search_inv key data out n as s"
  by (induction rule: exec.induct) (auto intro: search_inv_init search_inv_step)

lemma exec_found_stable:
  "exec key data s as t \<Longrightarrow> found s \<Longrightarrow> found t"
  by (induction rule: exec.induct) (auto dest: step_found_stable)

lemma exec_append:
  "exec key data s as t \<Longrightarrow> exec key data t bs u \<Longrightarrow> exec key data s (as @ bs) u"
proof (induction bs arbitrary: u rule: rev_induct)
  case Nil
  then show ?case by (auto elim: exec.cases)
next
  case (snoc b bs)
  from snoc.prems(2) obtain v where "exec key data t bs v" "step key data v b u"
    by (auto elim: exec.cases)
  then show ?case using snoc.IH[OF snoc.prems(1)] exec_step by (metis append_assoc)
qed

lemma exec_one: "step key data s a t \<Longrightarrow> exec key data s [a] t"
  using exec_step[OF exec_start, of key data s a t] by simp

lemma at_most_one_delivery:
  assumes "exec key data (init out n) as s"
  shows "length (deliveries as) \<le> 1"
  using exec_search_inv[OF assms] by (simp add: search_inv_def split: if_splits)

lemma completed_search_found:
  assumes "exec key data (init out n) as s" and "0 < n"
    and "\<forall>w \<in> set (workers s). w = W_exit"
    and "p \<in> set out" and "verifyPassword key p data = Some True"
  shows "found s"
proof (rule ccontr)
  assume nf: "\<not> found s"
  from exec_search_inv[OF assms(1)] have inv: "search_inv key data out n as s" .
  then have len: "length (workers s) = n" by (simp add: search_inv_def)
  with assms(2) have "workers s \<noteq> []" by auto
  then have "W_exit \<in> set (workers s)" using assms(3) by (cases "workers s") auto
  then have "chan_closed s" "passwords s = []"
    using inv nf by (auto simp: search_inv_def exit_inv_def)
  moreover then have "pending s = []" using inv by (auto simp: search_inv_def chan_inv_def)
  ultimately have "receptions as = out" using inv by (simp add: search_inv_def)
  then have "p \<in> set (receptions as)" using assms(4) by simp
  then obtain j where "j < length (workers s)" "in_hand p (workers s ! j)"
    using inv nf assms(5) by (auto simp: search_inv_def match_inv_def)
  moreover then have "workers s ! j = W_exit" using assms(3) by simp
  ultimately show False by simp
qed

lemma completed_search_delivers:
  assumes "exec key data (init out n) as s" and "0 < n"
    and "\<forall>w \<in> set (workers s). w = W_exit"
    and "p \<in> set out" and "verifyPassword key p data = Some True"
  shows "length (deliveries as) = 1"
proof -
  have "found s" by (rule completed_search_found[OF assms])
  moreover have "count_pc is_send s = 0" using assms(3) by (auto simp: count_pc_zero)
  ultimately show ?thesis using exec_search_inv[OF assms(1)] by (simp add: search_inv_def)
qed

lemma attempts_bound:
  assumes "exec key data (init out n) as s"
  shows "tried s = of_nat (attempts as)" and "attempts as \<le> length out"
proof -
  from exec_search_inv[OF assms] have inv: "search_inv key data out n as s" .
  then show "tried s = of_nat (attempts as)" by (simp add: search_inv_def count_inv_def)
  from inv have "attempts as \<le> length (receptions as)" by (simp add: search_inv_def count_inv_def)
  moreover from inv have "length (receptions as) \<le> length out"
    by (auto simp: search_inv_def)
  ultimately show "attempts as \<le> length out" by simp
qed

lemma completed_search_count:
  assumes "exec key data (init out n) as s" and "0 < n"
    and "\<forall>w \<in> set (workers s). w = W_exit" and "\<not> found s"
  shows "tried s = of_nat (length out)"
proof -
  from exec_search_inv[OF assms(1)] have inv: "search_inv key data out n as s" .
  then have len: "length (workers s) = n" by (simp add: search_inv_def)
  with assms(2) have "workers s \<noteq> []" by auto
  then have "W_exit \<in> set (workers s)" using assms(3) by (cases "workers s") auto
  then have "chan_closed s" "passwords s = []"
    using inv assms(4) by (auto simp: search_inv_def exit_inv_def)
  moreover then have "pending s = []" using inv by (auto simp: search_inv_def chan_inv_def)
  ultimately have "receptions as = out" using inv by (simp add: search_inv_def)
  moreover have "count_pc is_holding s = 0" using assms(3) by (auto simp: count_pc_zero)
  ultimately show ?thesis using inv assms(4) by (simp add: search_inv_def count_inv_def)
qed

subsection \<open>Particular executions\<close>

lemma generator_flush:
  assumes "pending s = ps" and "length (passwords s) + length ps \<le> passwords_cap"
  shows "exec key data s (map Gen_send ps) (s\<lparr>pending := [], passwords := passwords s @ ps\<rparr>)"
  using assms
proof (induction ps arbitrary: s)
  case Nil
  then have "s\<lparr>pending := [], passwords := passwords s @ []\<rparr> = s" by simp
  then show ?case by (simp add: exec_start)
next
  case (Cons p ps)
  let ?s1 = "s\<lparr>pending := ps, passwords := passwords s @ [p]\<rparr>"
  have "step key data s (Gen_send p) ?s1"
    using Cons.prems by (intro step.gen_send) simp_all
  then have "exec key data s [Gen_send p] ?s1" by (rule exec_one)
  moreover have "exec key data ?s1 (map Gen_send ps) (?s1\<lparr>pending := [], passwords := passwords ?s1 @ ps\<rparr>)"
    using Cons.prems by (intro Cons.IH) simp_all
  ultimately have "exec key data s ([Gen_send p] @ map Gen_send ps)
      (?s1\<lparr>pending := [], passwords := passwords ?s1 @ ps\<rparr>)"
    by (rule exec_append)
  then show ?case by simp
qed

text \<open>
  The generator fills the channel, closes it and releases the wait group; the driver
  takes the \<open>done\<close> signal and prints, while no worker has made a step.
\<close>

lemma early_not_found_run:
  assumes "length out \<le> passwords_cap"
  shows "exec key data (init out n)
           (map Gen_send out @ [Gen_close, Gen_wg_done, Select_done, Print (PasswordNotFound 0)])
           (early_report out n)"
proof -
  let ?s1 = "(init out n)\<lparr>pending := [], passwords := out\<rparr>"
  let ?s2 = "?s1\<lparr>chan_closed := True\<rparr>"
  let ?s3 = "?s2\<lparr>gen_done := True\<rparr>"
  let ?s4 = "?s3\<lparr>driver := D_not_found\<rparr>"
  let ?s5 = "?s4\<lparr>driver := D_exit (PasswordNotFound (tried ?s4))\<rparr>"
  have "exec key data (init out n) (map Gen_send out)
          ((init out n)\<lparr>pending := [], passwords := passwords (init out n) @ out\<rparr>)"
    using assms by (intro generator_flush) (simp_all add: init_def)
  then have e1: "exec key data (init out n) (map Gen_send out) ?s1" by (simp add: init_def)
  have "step key data ?s1 Gen_close ?s2" by (intro step.gen_close) (simp_all add: init_def)
  with e1 have e2: "exec key data (init out n) (map Gen_send out @ [Gen_close]) ?s2"
    by (rule exec_step)
  have "step key data ?s2 Gen_wg_done ?s3" by (intro step.gen_wg_done) (simp_all add: init_def)
  with e2 have e3: "exec key data (init out n) ((map Gen_send out @ [Gen_close]) @ [Gen_wg_done]) ?s3"
    by (rule exec_step)
  have "step key data ?s3 Select_done ?s4" by (intro step.select_done) (simp_all add: init_def)
  with e3 have e4: "exec key data (init out n)
      (((map Gen_send out @ [Gen_close]) @ [Gen_wg_done]) @ [Select_done]) ?s4"
    by (rule exec_step)
  have "step key data ?s4 (Print (PasswordNotFound (tried ?s4))) ?s5"
    by (intro step.print_not_found) simp
  with e4 have "exec key data (init out n)
      ((((map Gen_send out @ [Gen_close]) @ [Gen_wg_done]) @ [Select_done])
        @ [Print (PasswordNotFound (tried ?s4))]) ?s5"
    by (rule exec_step)
  moreover have "tried ?s4 = 0" by (simp add: init_def)
  moreover have "?s5 = early_report out n" by (simp add: init_def early_report_def)
  ultimately show ?thesis by simp
qed

text \<open>One worker takes the first candidate and counts it.\<close>

lemma first_attempt_run:
  assumes "pending s = p # ps" and "passwords s = []" and "workers s = W_range # ws"
    and "\<not> found s"
  shows "exec key data s [Gen_send p, Recv 0 p, Load 0 False, Add 0]
           (s\<lparr>pending := ps, tried := tried s + 1, workers := W_verify p # ws\<rparr>)"
proof -
  let ?s1 = "s\<lparr>pending := ps, passwords := passwords s @ [p]\<rparr>"
  let ?s2 = "?s1\<lparr>passwords := [], workers := (workers ?s1)[0 := W_load p]\<rparr>"
  let ?s3 = "?s2\<lparr>workers := (workers ?s2)[0 := W_add p]\<rparr>"
  let ?s4 = "?s3\<lparr>tried := tried ?s3 + 1, workers := (workers ?s3)[0 := W_verify p]\<rparr>"
  have "step key data s (Gen_send p) ?s1"
    using assms by (intro step.gen_send) (simp_all add: passwords_cap_def)
  then have e1: "exec key data s [Gen_send p] ?s1" by (rule exec_one)
  have "step key data ?s1 (Recv 0 p) ?s2"
    using assms by (intro step.recv) simp_all
  with e1 have e2: "exec key data s ([Gen_send p] @ [Recv 0 p]) ?s2" by (rule exec_step)
  have "step key data ?s2 (Load 0 False) ?s3"
    using assms by (intro step.load_not_found[where p = p]) simp_all
  with e2 have e3: "exec key data s (([Gen_send p] @ [Recv 0 p]) @ [Load 0 False]) ?s3"
    by (rule exec_step)
  have "step key data ?s3 (Add 0) ?s4"
    using assms by (intro step.add[where p = p]) simp_all
  with e3 have "exec key data s ((([Gen_send p] @ [Recv 0 p]) @ [Load 0 False]) @ [Add 0]) ?s4"
    by (rule exec_step)
  moreover have "?s4 = s\<lparr>pending := ps, tried := tried s + 1, workers := W_verify p # ws\<rparr>"
    using assms by simp
  ultimately show ?thesis by simp
qed

text \<open>A single worker whose first candidate verifies wins and delivers it.\<close>

lemma first_match_run:
  assumes "pending s = p # ps" and "passwords s = []" and "workers s = [W_range]"
    and "\<not> found s" and "result s = []" and "verifyPassword key p data = Some True"
  shows "exec key data s
           [Gen_send p, Recv 0 p, Load 0 False, Add 0, Verify 0 True, Cas 0 True, Deliver 0 p]
           (s\<lparr>pending := ps, found := True, tried := tried s + 1, result := [p],
              workers := [W_exit]\<rparr>)"
proof -
  let ?s4 = "s\<lparr>pending := ps, tried := tried s + 1, workers := W_verify p # []\<rparr>"
  let ?s5 = "?s4\<lparr>workers := (workers ?s4)[0 := W_cas p]\<rparr>"
  let ?s6 = "?s5\<lparr>found := True, workers := (workers ?s5)[0 := W_send p]\<rparr>"
  let ?s7 = "?s6\<lparr>result := result ?s6 @ [p], workers := (workers ?s6)[0 := W_exit]\<rparr>"
  have e4: "exec key data s [Gen_send p, Recv 0 p, Load 0 False, Add 0] ?s4"
    using assms by (intro first_attempt_run) simp_all
  have "step key data ?s4 (Verify 0 True) ?s5"
    using assms by (intro step.verify_match[where p = p]) simp_all
  with e4 have e5: "exec key data s ([Gen_send p, Recv 0 p, Load 0 False, Add 0] @ [Verify 0 True]) ?s5"
    by (rule exec_step)
  have "step key data ?s5 (Cas 0 True) ?s6"
    using assms by (intro step.cas_win[where p = p]) simp_all
  with e5 have e6: "exec key data s
      (([Gen_send p, Recv 0 p, Load 0 False, Add 0] @ [Verify 0 True]) @ [Cas 0 True]) ?s6"
    by (rule exec_step)
  have "step key data ?s6 (Deliver 0 p) ?s7"
    using assms by (intro step.deliver) (simp_all add: result_cap_def)
  with e6 have "exec key data s
      ((([Gen_send p, Recv 0 p, Load 0 False, Add 0] @ [Verify 0 True]) @ [Cas 0 True])
         @ [Deliver 0 p]) ?s7"
    by (rule exec_step)
  moreover have "?s7 = s\<lparr>pending := ps, found := True, tried := tried s + 1, result := [p],
              workers := [W_exit]\<rparr>"
    using assms by simp
  ultimately show ?thesis by simp
qed

subsection \<open>A search with nothing to try\<close>

lemma idle_inv_step: "step key data s a s' \<Longrightarrow> idle_inv s \<Longrightarrow> idle_inv s'"
  by (erule step.cases) (auto simp: idle_inv_def nth_list_update)

lemma idle_inv_init: "idle_inv (init [] n)"
  by (simp add: idle_inv_def init_def)

lemma idle_inv_exec: "exec key data (init [] n) as s \<Longrightarrow> idle_inv s"
  by (induction rule: exec.induct) (auto simp: idle_inv_init idle_inv_step)

subsection \<open>Executions end, and only when the workers have returned\<close>

lemma sum_rank_update:
  assumes "k < length ws"
  shows "sum_list (map rank (ws[k := w])) + rank (ws ! k) = sum_list (map rank ws) + rank w"
proof -
  have a: "ws = take k ws @ ws ! k # drop (Suc k) ws"
    using assms by (simp add: id_take_nth_drop)
  have b: "ws[k := w] = take k ws @ w # drop (Suc k) ws"
    using assms by (simp add: upd_conv_take_nth_drop)
  have "sum_list (map rank ws) = sum_list (map rank (take k ws @ ws ! k # drop (Suc k) ws))"
    using a by simp
  then show ?thesis by (simp add: b)
qed

lemma step_remaining:
  assumes "step key data s a t"
  shows "remaining t < remaining s"
  using assms
proof (cases rule: step.cases)
  case (recv k p ps)
  from sum_rank_update[of k "workers s" "W_load p"] recv
  show ?thesis by (simp add: remaining_def)
next
  case (range_end k)
  from sum_rank_update[of k "workers s" "W_exit"] range_end
  show ?thesis by (simp add: remaining_def)
next
  case (load_found k p)
  from sum_rank_update[of k "workers s" "W_drain"] load_found
  show ?thesis by (simp add: remaining_def)
next
  case (load_not_found k p)
  from sum_rank_update[of k "workers s" "W_add p"] load_not_found
  show ?thesis by (simp add: remaining_def)
next
  case (drain_end k)
  from sum_rank_update[of k "workers s" "W_exit"] drain_end
  show ?thesis by (simp add: remaining_def)
next
  case (add k p)
  from sum_rank_update[of k "workers s" "W_verify p"] add
  show ?thesis by (simp add: remaining_def)
next
  case (verify_match k p)
  from sum_rank_update[of k "workers s" "W_cas p"] verify_match
  show ?thesis by (simp add: remaining_def)
next
  case (verify_mismatch k p)
  from sum_rank_update[of k "workers s" "W_range"] verify_mismatch
  show ?thesis by (simp add: remaining_def)
next
  case (verify_panic k p)
  from sum_rank_update[of k "workers s" "W_panic"] verify_panic
  show ?thesis by (simp add: remaining_def)
next
  case (cas_win k p)
  from sum_rank_update[of k "workers s" "W_send p"] cas_win
  show ?thesis by (simp add: remaining_def)
next
  case (cas_lose k p)
  from sum_rank_update[of k "workers s" "W_exit"] cas_lose
  show ?thesis by (simp add: remaining_def)
next
  case (deliver k p)
  from sum_rank_update[of k "workers s" "W_exit"] deliver
  show ?thesis by (simp add: remaining_def)
qed (simp_all add: remaining_def)

lemma exec_remaining: "exec key data s as t \<Longrightarrow> length as + remaining t \<le> remaining s"
proof (induction rule: exec.induct)
  case exec_start
  then show ?case by simp
next
  case (exec_step as t a u)
  from step_remaining[OF exec_step.hyps(2)] exec_step.IH show ?case by simp
qed

lemma remaining_init: "remaining (init out n) = 10 * length out + 3 * n + 5"
  by (simp add: remaining_def init_def sum_list_replicate)

lemma exec_length_bound:
  assumes "exec key data (init out n) as s"
  shows "length as \<le> 10 * length out + 3 * n + 5"
  using exec_remaining[OF assms] by (simp add: remaining_init)

lemma result_step:
  assumes "step key data s a t" and "length (result s) \<le> length (deliveries as)"
  shows "length (result t) \<le> length (deliveries (as @ [a]))"
  using assms by (cases rule: step.cases) (auto simp: deliveries_snoc)

lemma exec_result:
  "exec key data (init out n) as s \<Longrightarrow> length (result s) \<le> length (deliveries as)"
proof (induction rule: exec.induct)
  case exec_start
  then show ?case by (simp add: init_def)
next
  case (exec_step as t a u)
  then show ?case by (simp add: result_step)
qed

lemma sender_not_blocked:
  assumes "exec key data (init out n) as s" and "k < length (workers s)"
    and "workers s ! k = W_send p"
  shows "result s = []"
proof -
  have "is_send (workers s ! k)" using assms(3) by simp
  then have "workers s ! k \<in> set (filter is_send (workers s))" using assms(2) by simp
  then have "0 < count_pc is_send s" by (auto simp: count_pc_def simp del: set_filter)
  moreover have "length (deliveries as) + count_pc is_send s \<le> 1"
    using exec_search_inv[OF assms(1)] by (simp add: search_inv_def split: if_splits)
  ultimately have "length (deliveries as) = 0" by arith
  then show ?thesis using exec_result[OF assms(1)] by simp
qed

lemma search_progress:
  assumes "exec key data (init out n) as s" and "k < length (workers s)"
    and "workers s ! k \<noteq> W_exit" and "workers s ! k \<noteq> W_panic"
  shows "\<exists>a t. step key data s a t"
proof (cases "workers s ! k")
  case W_range
  show ?thesis
  proof (cases "passwords s")
    case (Cons p ps)
    then show ?thesis using step.recv[OF assms(2) W_range] by blast
  next
    case Nil
    show ?thesis
    proof (cases "chan_closed s")
      case True
      then show ?thesis using step.range_end[OF assms(2) W_range Nil] by blast
    next
      case False
      show ?thesis
      proof (cases "pending s")
        case Nil
        then show ?thesis using step.gen_close[OF _ False] by blast
      next
        case (Cons p ps)
        have "length (passwords s) < passwords_cap"
          using \<open>passwords s = []\<close> by (simp add: passwords_cap_def)
        then show ?thesis using step.gen_send[OF Cons] by blast
      qed
    qed
  qed
next
  case (W_load p)
  then show ?thesis
    using step.load_found[OF assms(2)] step.load_not_found[OF assms(2)] by blast
next
  case W_drain
  show ?thesis
  proof (cases "passwords s")
    case (Cons p ps)
    then show ?thesis using step.drain[OF assms(2) W_drain] by blast
  next
    case Nil
    show ?thesis
    proof (cases "chan_closed s")
      case True
      then show ?thesis using step.drain_end[OF assms(2) W_drain Nil] by blast
    next
      case False
      show ?thesis
      proof (cases "pending s")
        case Nil
        then show ?thesis using step.gen_close[OF _ False] by blast
      next
        case (Cons p ps)
        have "length (passwords s) < passwords_cap"
          using \<open>passwords s = []\<close> by (simp add: passwords_cap_def)
        then show ?thesis using step.gen_send[OF Cons] by blast
      qed
    qed
  qed
next
  case (W_add p)
  then show ?thesis using step.add[OF assms(2)] by blast
next
  case (W_verify p)
  show ?thesis
  proof (cases "verifyPassword key p data")
    case None
    then show ?thesis using step.verify_panic[OF assms(2) W_verify] by blast
  next
    case (Some b)
    show ?thesis
    proof (cases b)
      case True
      then have "verifyPassword key p data = Some True" using Some by simp
      then show ?thesis using step.verify_match[OF assms(2) W_verify] by blast
    next
      case False
      then have "verifyPassword key p data = Some False" using Some by simp
      then show ?thesis using step.verify_mismatch[OF assms(2) W_verify] by blast
    qed
  qed
next
  case (W_cas p)
  then show ?thesis
    using step.cas_win[OF assms(2)] step.cas_lose[OF assms(2)] by blast
next
  case (W_send p)
  then have "result s = []" by (rule sender_not_blocked[OF assms(1,2)])
  then have "length (result s) < result_cap" by (simp add: result_cap_def)
  then show ?thesis using step.deliver[OF assms(2) W_send] by blast
next
  case W_exit
  then show ?thesis using assms(3) by simp
next
  case W_panic
  then show ?thesis using assms(4) by simp
qed

section \<open>The claims about the generator and the search-space size\<close>

text \<open>
  C1. For a non-empty mask over the five symbols, \<open>generatePasswords\<close> returns (closing
  its channel) after sending a finite sequence \<open>out\<close>: its length is the product of the
  charset sizes of the positions, which is also the value of
  \<open>calculateTotalCombinations\<close> as a 64-bit word; its elements are distinct; they are
  exactly the strings of the mask's length whose \<open>i\<close>-th character lies in the charset of
  position \<open>i\<close>; and the order is that of an odometer: in the \<open>k\<close>-th string (counting
  from zero) position \<open>i\<close> shows the charset element whose index is \<open>k\<close> divided by the
  product of the sizes to the right of \<open>i\<close>, modulo the size at \<open>i\<close>. So every index
  starts at zero, the rightmost position moves at every step, and a position moves when
  all positions to its right wrap around.
\<close>

theorem generator_odometer:
  assumes "msk \<noteq> []" and "set msk \<subseteq> mask_symbols"
  shows "\<exists>out. generatePasswords msk = Some out
          \<and> length out = charset_product msk
          \<and> calculateTotalCombinations msk = of_nat (length out)
          \<and> distinct out
          \<and> set out = {w. length w = length msk
                          \<and> (\<forall>i < length msk. w ! i \<in> set (getCharset (msk ! i)))}
          \<and> (\<forall>k < length out. \<forall>i < length msk.
                out ! k ! i =
                  getCharset (msk ! i)
                    ! ((k div charset_product (drop (Suc i) msk)) mod length (getCharset (msk ! i))))"
proof -
  let ?cs = "map getCharset msk"
  let ?out = "product_lists ?cs"
  have valid: "\<forall>m \<in> set msk. getCharset m \<noteq> []"
    using assms(2) by (auto simp: getCharset_empty_iff)
  have gen: "generatePasswords msk = Some ?out"
    by (rule generatePasswords_valid[OF valid])
  have len: "length ?out = charset_product msk"
    by (simp add: length_product_lists_space space_size_map_getCharset)
  have tot: "calculateTotalCombinations msk = of_nat (length ?out)"
    by (simp only: len calculateTotalCombinations_product)
  have dist: "distinct ?out"
    by (rule distinct_product_lists) (auto simp: distinct_getCharset)
  have mem: "set ?out = {w. length w = length msk
                          \<and> (\<forall>i < length msk. w ! i \<in> set (getCharset (msk ! i)))}"
    by (auto simp: product_lists_set list_all2_conv_all_nth)
  have dig: "out_k_i = getCharset (msk ! i)
                    ! ((k div charset_product (drop (Suc i) msk)) mod length (getCharset (msk ! i)))"
    if "k < length ?out" "i < length msk" "out_k_i = ?out ! k ! i" for k i out_k_i
  proof -
    have "k < space_size ?cs" using that(1) by (simp add: length_product_lists_space)
    moreover have "i < length ?cs" using that(2) by simp
    ultimately have "?out ! k ! i
        = (?cs ! i) ! ((k div space_size (drop (Suc i) ?cs)) mod length (?cs ! i))"
      by (rule product_lists_digit)
    moreover have "space_size (drop (Suc i) ?cs) = charset_product (drop (Suc i) msk)"
      by (simp add: drop_map space_size_map_getCharset)
    ultimately show ?thesis using that(2,3) by simp
  qed
  show ?thesis
    using gen len tot dist mem dig by (intro exI[of _ ?out]) blast
qed

theorem generator_odometer_witness:
  "''dl'' \<noteq> [] \<and> set ''dl'' \<subseteq> mask_symbols
   \<and> (\<exists>out. generatePasswords ''dl'' = Some out \<and> length out = 260 \<and> distinct out
         \<and> calculateTotalCombinations ''dl'' = 260)"
proof -
  have a: "''dl'' \<noteq> []" by simp
  have b: "set ''dl'' \<subseteq> mask_symbols" by (simp add: mask_symbols_def)
  have c: "charset_product ''dl'' = 260" by (simp add: charset_product_def getCharset_def)
  from generator_odometer[OF a b] obtain out where
    "generatePasswords ''dl'' = Some out" "length out = charset_product ''dl''"
    "calculateTotalCombinations ''dl'' = of_nat (length out)" "distinct out"
    by blast
  then show ?thesis using a b c by auto
qed

text \<open>
  C8. The mask is validated in full before anything is sent: if any position of the mask
  holds a symbol outside the five, \<open>generatePasswords\<close> returns (closing its channel)
  having sent nothing, and \<open>calculateTotalCombinations\<close> is 0, the empty charset of that
  symbol being a factor of the product.
\<close>

theorem invalid_mask_emits_nothing:
  assumes "\<exists>m \<in> set msk. m \<notin> mask_symbols"
  shows "generatePasswords msk = Some [] \<and> calculateTotalCombinations msk = 0
         \<and> (\<exists>m \<in> set msk. length (getCharset m) = 0)"
proof -
  have "\<exists>m \<in> set msk. getCharset m = []"
    using assms by (simp add: getCharset_empty_iff)
  then have "generatePasswords msk = Some []" "\<exists>m \<in> set msk. length (getCharset m) = 0"
    by (simp_all add: generatePasswords_invalid)
  moreover have "calculateTotalCombinations msk = 0"
    by (simp add: calculateTotalCombinations_product charset_product_invalid[OF assms])
  ultimately show ?thesis by simp
qed

theorem invalid_mask_emits_nothing_witness:
  "CHR ''x'' \<in> set ''dxd'' \<and> CHR ''x'' \<notin> mask_symbols
   \<and> generatePasswords ''dxd'' = Some [] \<and> calculateTotalCombinations ''dxd'' = 0"
proof -
  have a: "CHR ''x'' \<in> set ''dxd''" by simp
  have b: "CHR ''x'' \<notin> mask_symbols" by (simp add: mask_symbols_def)
  from a b have "\<exists>m \<in> set ''dxd''. m \<notin> mask_symbols" by blast
  from invalid_mask_emits_nothing[OF this] show ?thesis using a b by simp
qed

text \<open>
  C10. \<open>calculateTotalCombinations\<close> is the product of the charset sizes modulo \<open>2^64\<close>:
  a product of \<open>2^64\<close> or more wraps around, with no saturation and no error. Eleven
  symbols \<open>a\<close> (62 characters each) are such a mask.
\<close>

theorem total_combinations_wraps:
  "unat (calculateTotalCombinations msk) = charset_product msk mod 2 ^ 64"
  by (simp add: calculateTotalCombinations_product unat_of_nat)

theorem total_combinations_wraps_witness:
  "2 ^ 64 \<le> charset_product (replicate 11 CHR ''a'')
   \<and> unat (calculateTotalCombinations (replicate 11 CHR ''a'')) = 15143072536417990656
   \<and> charset_product (replicate 11 CHR ''a'') = 52036560683837093888"
proof -
  have "charset_product (replicate 11 CHR ''a'') = 62 ^ 11"
    by (simp only: charset_product_replicate length_getCharset_a)
  then show ?thesis
    using total_combinations_wraps[of "replicate 11 CHR ''a''"] by simp
qed

section \<open>The claims about the oracle, the record format and the start of the program\<close>

text \<open>
  C9. For the empty mask \<open>generatePasswords\<close> sends exactly one candidate, the empty
  string, and returns (closing its channel), and \<open>calculateTotalCombinations\<close> is 1, the
  empty product. The command line never gets there: with an empty mask flag \<open>main\<close>
  prints the usage and exits, whatever the other arguments and files are.
\<close>

theorem empty_mask_edge_case:
  "generatePasswords [] = Some [[]] \<and> calculateTotalCombinations [] = 1
   \<and> main_startup fs [] args = Exit_usage"
proof -
  have "generatePasswords [] = Some (product_lists (map getCharset []))"
    by (rule generatePasswords_valid) simp
  then show ?thesis
    by (simp add: calculateTotalCombinations_def main_startup_def)
qed

theorem empty_mask_edge_case_witness:
  "generatePasswords [] = Some [[]] \<and> calculateTotalCombinations [] = 1
   \<and> main_startup (\<lambda>name. Inr ''16384*8*1*32*00*00'') [] [''hash.txt''] = Exit_usage"
  using empty_mask_edge_case[of "\<lambda>name. Inr ''16384*8*1*32*00*00''" "[''hash.txt'']"] by simp




text \<open>
  C6. Round trip. Whenever \<open>gen.go\<close> emits a record, into a file or on standard output
  (which happens for a non-empty password and parameters that the key-derivation function
  accepts), \<open>parseFile\<close> on a file with that content returns a record, and
  \<open>verifyPassword\<close> with the original password is true of it.
\<close>

theorem gen_record_round_trip:
  assumes "gen_main key salt writable password output n r p keyLen = Gen_saved filename content
           \<or> gen_main key salt writable password output n r p keyLen = Gen_printed content"
    and "fs filename = Inr content"
  shows "\<exists>data. parseFile fs filename = Inr data \<and> verifyPassword key password data = Some True"
proof -
  from assms(1) obtain hashValue where
    h: "key password salt n r p keyLen = Some (Inr hashValue)"
    and c: "content = gen_record n r p keyLen salt hashValue
         \<or> content = gen_record n r p keyLen salt hashValue @ [CHR 0x0A]"
    by (auto simp: gen_main_def computeScryptHash_def Let_def
        split: if_splits option.splits sum.splits)
  let ?d = "\<lparr>N = n, R = r, P = p, KeyLen = keyLen, Salt = salt, Hash = hashValue\<rparr>"
  have "parseFile fs filename = Inr ?d" using assms(2) c by (rule parseFile_gen_record)
  moreover have "verifyPassword key password ?d = Some True" by (simp add: verifyPassword_def h)
  ultimately show ?thesis by blast
qed

theorem gen_record_round_trip_witness:
  "gen_main plain_kdf (replicate 16 7) True ''42'' [] 16384 8 1 32
     = Gen_printed (gen_record 16384 8 1 32 (replicate 16 7) (map of_char ''42'') @ [CHR 0x0A])
   \<and> (\<exists>data.
         parseFile
           (\<lambda>name. Inr (gen_record 16384 8 1 32 (replicate 16 7) (map of_char ''42'') @ [CHR 0x0A]))
           ''hash.txt'' = Inr data
         \<and> verifyPassword plain_kdf ''42'' data = Some True)"
proof -
  let ?content = "gen_record 16384 8 1 32 (replicate 16 7) (map of_char ''42'') @ [CHR 0x0A]"
  have g: "gen_main plain_kdf (replicate 16 7) True ''42'' [] 16384 8 1 32 = Gen_printed ?content"
    by (simp add: gen_main_def computeScryptHash_def plain_kdf_def)
  then have "gen_main plain_kdf (replicate 16 7) True ''42'' [] 16384 8 1 32
               = Gen_saved ''hash.txt'' ?content
             \<or> gen_main plain_kdf (replicate 16 7) True ''42'' [] 16384 8 1 32
               = Gen_printed ?content"
    by (rule disjI2)
  moreover have "(\<lambda>name. Inr ?content :: string + string) ''hash.txt'' = Inr ?content" by simp
  ultimately have "\<exists>data. parseFile (\<lambda>name. Inr ?content) ''hash.txt'' = Inr data
                     \<and> verifyPassword plain_kdf ''42'' data = Some True"
    by (rule gen_record_round_trip)
  with g show ?thesis by (rule conjI)
qed

section \<open>The claims about the concurrent search\<close>

lemma word_of_nat_le:
  assumes "a \<le> b" and "b < 2 ^ 64"
  shows "(of_nat a :: 64 word) \<le> of_nat b"
proof -
  have "unat (of_nat a :: 64 word) = a" "unat (of_nat b :: 64 word) = b"
    using assms by (simp_all add: unat_of_nat)
  then show ?thesis using assms(1) by (simp add: word_le_nat_alt)
qed

lemma generatePasswords_d: "generatePasswords ''d'' = Some (product_lists [''1234567890''])"
proof -
  have "generatePasswords ''d'' = Some (product_lists (map getCharset ''d''))"
    by (rule generatePasswords_valid) (simp add: getCharset_def)
  then show ?thesis by (simp add: getCharset_def)
qed

lemma reject_kdf_never: "verifyPassword reject_kdf p data = Some False"
  by (simp add: verifyPassword_def reject_kdf_def)

lemma verify_first_digit:
  "verifyPassword plain_kdf ''1''
     \<lparr>N = 16384, R = 8, P = 1, KeyLen = 1, Salt = [], Hash = [49]\<rparr> = Some True"
  by (simp add: verifyPassword_def plain_kdf_def)

text \<open>
  C3 does not hold of the code: a delivery can be lost. It is the defect of C2, seen
  with a record that some candidate verifies against. The wait group counts the
  generator only, so \<open>main\<close> may take the \<open>done\<close> signal while the workers are still at
  work. For the mask \<open>d\<close> and a record that the candidate \<open>1\<close> verifies against, the
  generator puts its ten candidates into the channel and returns, and \<open>main\<close> takes the
  \<open>done\<close> signal, reports not-found and returns, which ends the process: no password
  has been sent on \<open>result\<close>, and none will be.
\<close>

theorem delivery_lost_on_early_report:
  "generatePasswords ''d'' = Some (product_lists [''1234567890''])
   \<and> ''1'' \<in> set (product_lists [''1234567890''])
   \<and> verifyPassword plain_kdf ''1''
        \<lparr>N = 16384, R = 8, P = 1, KeyLen = 1, Salt = [], Hash = [49]\<rparr> = Some True
   \<and> exec plain_kdf \<lparr>N = 16384, R = 8, P = 1, KeyLen = 1, Salt = [], Hash = [49]\<rparr>
       (init (product_lists [''1234567890'']) 4)
       (map Gen_send (product_lists [''1234567890''])
          @ [Gen_close, Gen_wg_done, Select_done, Print (PasswordNotFound 0)])
       (early_report (product_lists [''1234567890'']) 4)
   \<and> driver (early_report (product_lists [''1234567890'']) 4) = D_exit (PasswordNotFound 0)
   \<and> deliveries (map Gen_send (product_lists [''1234567890''])
          @ [Gen_close, Gen_wg_done, Select_done, Print (PasswordNotFound 0)]) = []
   \<and> result (early_report (product_lists [''1234567890'']) 4) = []"
proof -
  let ?data = "\<lparr>N = 16384, R = 8, P = 1, KeyLen = 1, Salt = [], Hash = [49]\<rparr>"
  let ?out = "product_lists [''1234567890'']"
  let ?as = "map Gen_send ?out @ [Gen_close, Gen_wg_done, Select_done, Print (PasswordNotFound 0)]"
  have m: "''1'' \<in> set ?out" by simp
  have e: "exec plain_kdf ?data (init ?out 4) ?as (early_report ?out 4)"
    by (rule early_not_found_run) (simp add: passwords_cap_def)
  have d: "driver (early_report ?out 4) = D_exit (PasswordNotFound 0)"
    "result (early_report ?out 4) = []"
    by (simp_all add: early_report_def init_def)
  have l: "deliveries ?as = []"
    by (simp add: deliveries_def)
  from generatePasswords_d m verify_first_digit e d l show ?thesis by blast
qed

text \<open>
  What the code does guarantee about the deliveries. In every execution of the search
  (the candidates being those \<open>generatePasswords\<close> sends, with any number of workers and
  any interleaving), at most one password is ever sent on \<open>result\<close>; no step takes
  \<open>found\<close> from true back to false; and in a state where every worker has returned and
  some candidate of the space verifies, exactly one password has been sent on \<open>result\<close>.
  An execution has at most \<open>10 * length out + 3 * n + 5\<close> steps, and as long as some
  worker has neither returned nor panicked a further step is possible.
\<close>

lemma delivery_safety:
  assumes "generatePasswords msk = Some out" and "exec key data (init out n) as s"
  shows "length (deliveries as) \<le> 1
         \<and> (\<forall>a t. step key data s a t \<longrightarrow> found s \<longrightarrow> found t)
         \<and> (0 < n \<and> (\<forall>w \<in> set (workers s). w = W_exit)
              \<and> (\<exists>p \<in> set out. verifyPassword key p data = Some True)
            \<longrightarrow> length (deliveries as) = 1)
         \<and> ((\<exists>w \<in> set (workers s). w \<noteq> W_exit \<and> w \<noteq> W_panic) \<longrightarrow> (\<exists>a t. step key data s a t))
         \<and> length as \<le> 10 * length out + 3 * n + 5"
proof (intro conjI allI impI)
  show "length (deliveries as) \<le> 1" by (rule at_most_one_delivery[OF assms(2)])
next
  fix a t assume "step key data s a t" "found s"
  then show "found t" by (rule step_found_stable)
next
  assume h: "0 < n \<and> (\<forall>w \<in> set (workers s). w = W_exit)
              \<and> (\<exists>p \<in> set out. verifyPassword key p data = Some True)"
  then obtain p where "p \<in> set out" "verifyPassword key p data = Some True" by blast
  with h show "length (deliveries as) = 1"
    using completed_search_delivers[OF assms(2)] by blast
next
  assume "\<exists>w \<in> set (workers s). w \<noteq> W_exit \<and> w \<noteq> W_panic"
  then obtain k where "k < length (workers s)" "workers s ! k \<noteq> W_exit"
    "workers s ! k \<noteq> W_panic"
    by (auto simp: in_set_conv_nth)
  then show "\<exists>a t. step key data s a t" by (rule search_progress[OF assms(2)])
next
  show "length as \<le> 10 * length out + 3 * n + 5" by (rule exec_length_bound[OF assms(2)])
qed

text \<open>
  An execution with a delivery: a single worker takes the first candidate of the mask
  \<open>d\<close>, which verifies, wins the flag and sends the candidate on \<open>result\<close>.
\<close>

lemma first_candidate_delivered:
  "exec plain_kdf \<lparr>N = 16384, R = 8, P = 1, KeyLen = 1, Salt = [], Hash = [49]\<rparr>
       (init (product_lists [''1234567890'']) 1)
       [Gen_send ''1'', Recv 0 ''1'', Load 0 False, Add 0, Verify 0 True, Cas 0 True,
        Deliver 0 ''1'']
       ((init (product_lists [''1234567890'']) 1)
          \<lparr>pending := map (\<lambda>c. [c]) ''234567890'',
            found := True, tried := 1, result := [''1''], workers := [W_exit]\<rparr>)"
proof -
  let ?data = "\<lparr>N = 16384, R = 8, P = 1, KeyLen = 1, Salt = [], Hash = [49]\<rparr>"
  let ?out = "product_lists [''1234567890'']"
  let ?as = "[Gen_send ''1'', Recv 0 ''1'', Load 0 False, Add 0, Verify 0 True, Cas 0 True,
              Deliver 0 ''1'']"
  let ?rest = "map (\<lambda>c. [c]) ''234567890''"
  have o: "?out = ''1'' # ?rest" by simp
  have "exec plain_kdf ?data (init ?out 1) ?as
          ((init ?out 1)\<lparr>pending := ?rest, found := True, tried := tried (init ?out 1) + 1,
             result := [''1''], workers := [W_exit]\<rparr>)"
    by (rule first_match_run) (simp_all add: init_def verify_first_digit)
  moreover have "tried (init ?out 1) + 1 = 1" by (simp add: init_def)
  ultimately show ?thesis by simp
qed

text \<open>
  C7, as the code has it. For a mask whose product of charset sizes is below \<open>2^64\<close>,
  the attempt counter never exceeds the value of \<open>calculateTotalCombinations\<close>, at any
  point of any execution. (The product of a mask with an unknown symbol is 0.)
\<close>

theorem counter_bounded:
  assumes "charset_product msk < 2 ^ 64"
    and "generatePasswords msk = Some out"
    and "exec key data (init out n) as s"
  shows "tried s \<le> calculateTotalCombinations msk"
proof -
  have "attempts as \<le> length out" by (rule attempts_bound(2)[OF assms(3)])
  then have "attempts as \<le> charset_product msk"
    using length_generatePasswords[OF assms(2)] by simp
  then have "(of_nat (attempts as) :: 64 word) \<le> of_nat (charset_product msk)"
    using assms(1) by (rule word_of_nat_le)
  then show ?thesis
    by (simp add: attempts_bound(1)[OF assms(3)] calculateTotalCombinations_product)
qed

theorem counter_bounded_witness:
  "charset_product ''d'' < 2 ^ 64
   \<and> generatePasswords ''d'' = Some (product_lists [''1234567890''])
   \<and> exec reject_kdf \<lparr>N = 0, R = 8, P = 1, KeyLen = 32, Salt = [], Hash = []\<rparr>
       (init (product_lists [''1234567890'']) 2)
       [Gen_send ''1'', Recv 0 ''1'', Load 0 False, Add 0]
       ((init (product_lists [''1234567890'']) 2)
          \<lparr>pending := map (\<lambda>c. [c]) ''234567890'',
            tried := 1, workers := [W_verify ''1'', W_range]\<rparr>)
   \<and> (1 :: 64 word) \<le> calculateTotalCombinations ''d''"
proof -
  let ?data = "\<lparr>N = 0, R = 8, P = 1, KeyLen = 32, Salt = [], Hash = []\<rparr>"
  let ?out = "product_lists [''1234567890'']"
  let ?as = "[Gen_send ''1'', Recv 0 ''1'', Load 0 False, Add 0]"
  let ?rest = "map (\<lambda>c. [c]) ''234567890''"
  let ?t = "(init ?out 2)\<lparr>pending := ?rest, tried := 1, workers := [W_verify ''1'', W_range]\<rparr>"
  have c: "charset_product ''d'' < 2 ^ 64"
    by (simp add: charset_product_def length_getCharset_d)
  have "exec reject_kdf ?data (init ?out 2) ?as
          ((init ?out 2)\<lparr>pending := ?rest, tried := tried (init ?out 2) + 1,
             workers := W_verify ''1'' # [W_range]\<rparr>)"
    by (rule first_attempt_run) (simp_all add: init_def numeral_2_eq_2)
  moreover have "tried (init ?out 2) + 1 = 1" by (simp add: init_def)
  ultimately have e: "exec reject_kdf ?data (init ?out 2) ?as ?t" by simp
  have "tried ?t \<le> calculateTotalCombinations ''d''"
    by (rule counter_bounded[OF c generatePasswords_d e])
  then have "(1 :: 64 word) \<le> calculateTotalCombinations ''d''" by simp
  with c generatePasswords_d e show ?thesis by blast
qed

text \<open>
  The claim C7 as it is written fails on a mask whose product wraps around to a smaller
  value. Sixty-four symbols \<open>d\<close> have the product \<open>10^64\<close>, a multiple of \<open>2^64\<close>, so
  \<open>calculateTotalCombinations\<close> is 0, while the generator has candidates to send and the
  counter is 1 after the first attempt.
\<close>

lemma total_sixty_four_digits: "calculateTotalCombinations (replicate 64 CHR ''d'') = 0"
proof -
  have "charset_product (replicate 64 CHR ''d'') = 10 ^ 64"
    by (simp only: charset_product_replicate length_getCharset_d)
  moreover have "(10::nat) ^ 64 = 2 ^ 64 * 5 ^ 64" by simp
  ultimately have "calculateTotalCombinations (replicate 64 CHR ''d'')
      = (of_nat (2 ^ 64 * 5 ^ 64) :: 64 word)"
    by (simp only: calculateTotalCombinations_product)
  also have "\<dots> = 2 ^ 64 * 5 ^ 64" by (simp only: of_nat_mult of_nat_power of_nat_numeral)
  also have "\<dots> = 0" by simp
  finally show ?thesis .
qed

theorem counter_exceeds_wrapped_total:
  "\<exists>out as s.
     generatePasswords (replicate 64 CHR ''d'') = Some out
     \<and> exec reject_kdf \<lparr>N = 0, R = 8, P = 1, KeyLen = 32, Salt = [], Hash = []\<rparr> (init out 1) as s
     \<and> as = [Gen_send (hd out), Recv 0 (hd out), Load 0 False, Add 0]
     \<and> tried s = 1
     \<and> calculateTotalCombinations (replicate 64 CHR ''d'') = 0
     \<and> \<not> tried s \<le> calculateTotalCombinations (replicate 64 CHR ''d'')"
proof -
  let ?msk = "replicate 64 CHR ''d''"
  let ?data = "\<lparr>N = 0, R = 8, P = 1, KeyLen = 32, Salt = [], Hash = []\<rparr>"
  obtain out where out: "generatePasswords ?msk = Some out"
    using generatePasswords_total by blast
  have "length out = 10 ^ 64"
    using length_generatePasswords[OF out]
    by (simp only: charset_product_replicate length_getCharset_d)
  then have "out \<noteq> []" by auto
  then obtain p ps where ps: "out = p # ps" by (cases out) auto
  let ?t = "(init out 1)\<lparr>pending := ps, tried := tried (init out 1) + 1,
              workers := W_verify p # []\<rparr>"
  have e: "exec reject_kdf ?data (init out 1) [Gen_send p, Recv 0 p, Load 0 False, Add 0] ?t"
    by (rule first_attempt_run) (simp_all add: init_def ps)
  have t: "tried ?t = 1" by (simp add: init_def)
  have z: "calculateTotalCombinations ?msk = 0" by (rule total_sixty_four_digits)
  have "\<not> tried ?t \<le> calculateTotalCombinations ?msk" by (simp add: z init_def)
  with out e t z ps show ?thesis
    by (intro exI[of _ out] exI[of _ "[Gen_send p, Recv 0 p, Load 0 False, Add 0]"] exI[of _ ?t])
       simp
qed

text \<open>
  C5, as the code has it. For a mask with a symbol outside the five, at any position,
  the counter stays 0 in every execution, the only report \<open>main\<close> can print is the
  not-found report with 0 attempts, this report can be reached, and
  \<open>calculateTotalCombinations\<close> is 0 as well: the counter equals the search-space size.
\<close>

theorem invalid_mask_report:
  assumes "\<exists>m \<in> set msk. m \<notin> mask_symbols"
    and "generatePasswords msk = Some out"
    and "exec key data (init out n) as s"
  shows "tried s = 0
         \<and> (\<forall>r. driver s = D_exit r \<longrightarrow> r = PasswordNotFound 0)
         \<and> calculateTotalCombinations msk = 0
         \<and> (\<exists>bs t. exec key data (init out n) bs t \<and> driver t = D_exit (PasswordNotFound 0))"
proof -
  have "\<exists>m \<in> set msk. getCharset m = []"
    using assms(1) by (simp add: getCharset_empty_iff)
  then have out: "out = []" using assms(2) by (simp add: generatePasswords_invalid)
  then have "idle_inv s" using assms(3) idle_inv_exec by simp
  then have "tried s = 0" "\<forall>r. driver s = D_exit r \<longrightarrow> r = PasswordNotFound 0"
    by (auto simp: idle_inv_def)
  moreover have "calculateTotalCombinations msk = 0"
    by (simp add: calculateTotalCombinations_product charset_product_invalid[OF assms(1)])
  moreover have "exec key data (init out n)
           (map Gen_send out @ [Gen_close, Gen_wg_done, Select_done, Print (PasswordNotFound 0)])
           (early_report out n)"
    by (rule early_not_found_run) (simp add: out)
  then have "\<exists>bs t. exec key data (init out n) bs t \<and> driver t = D_exit (PasswordNotFound 0)"
    by (intro exI conjI, assumption) (simp add: early_report_def)
  ultimately show ?thesis by blast
qed

theorem invalid_mask_report_witness:
  "CHR ''x'' \<in> set ''dx'' \<and> CHR ''x'' \<notin> mask_symbols
   \<and> generatePasswords ''dx'' = Some []
   \<and> exec reject_kdf \<lparr>N = 0, R = 8, P = 1, KeyLen = 32, Salt = [], Hash = []\<rparr>
       (init [] 2) [Gen_close, Gen_wg_done, Select_done, Print (PasswordNotFound 0)]
       (early_report [] 2)
   \<and> tried (early_report [] 2) = 0
   \<and> calculateTotalCombinations ''dx'' = 0"
proof -
  let ?data = "\<lparr>N = 0, R = 8, P = 1, KeyLen = 32, Salt = [], Hash = []\<rparr>"
  have a: "CHR ''x'' \<in> set ''dx''" by simp
  have b: "CHR ''x'' \<notin> mask_symbols" by (simp add: mask_symbols_def)
  from a b have inv: "\<exists>m \<in> set ''dx''. m \<notin> mask_symbols" by blast
  then have "\<exists>m \<in> set ''dx''. getCharset m = []" by (simp add: getCharset_empty_iff)
  then have g: "generatePasswords ''dx'' = Some []" by (rule generatePasswords_invalid)
  have "exec reject_kdf ?data (init [] 2)
          (map Gen_send [] @ [Gen_close, Gen_wg_done, Select_done, Print (PasswordNotFound 0)])
          (early_report [] 2)"
    by (rule early_not_found_run) simp
  then have e: "exec reject_kdf ?data (init [] 2)
          [Gen_close, Gen_wg_done, Select_done, Print (PasswordNotFound 0)] (early_report [] 2)"
    by simp
  from invalid_mask_report[OF inv g e]
  have "tried (early_report [] 2) = 0" "calculateTotalCombinations ''dx'' = 0" by blast+
  with a b g e show ?thesis by blast
qed

text \<open>
  The claim C5 as it is written asks for a counter strictly below the search-space
  size. For the mask \<open>x\<close> the run ends with the not-found report, the counter is 0, and
  the size is 0 too.
\<close>

theorem invalid_mask_counter_not_below_total:
  "generatePasswords ''x'' = Some []
   \<and> exec reject_kdf \<lparr>N = 0, R = 8, P = 1, KeyLen = 32, Salt = [], Hash = []\<rparr>
       (init [] 1) [Gen_close, Gen_wg_done, Select_done, Print (PasswordNotFound 0)]
       (early_report [] 1)
   \<and> driver (early_report [] 1) = D_exit (PasswordNotFound 0)
   \<and> calculateTotalCombinations ''x'' = 0
   \<and> \<not> (0 :: 64 word) < calculateTotalCombinations ''x''"
proof -
  let ?data = "\<lparr>N = 0, R = 8, P = 1, KeyLen = 32, Salt = [], Hash = []\<rparr>"
  have "\<exists>m \<in> set ''x''. getCharset m = []" by (simp add: getCharset_def)
  then have g: "generatePasswords ''x'' = Some []" by (rule generatePasswords_invalid)
  have "exec reject_kdf ?data (init [] 1)
          (map Gen_send [] @ [Gen_close, Gen_wg_done, Select_done, Print (PasswordNotFound 0)])
          (early_report [] 1)"
    by (rule early_not_found_run) simp
  then have e: "exec reject_kdf ?data (init [] 1)
          [Gen_close, Gen_wg_done, Select_done, Print (PasswordNotFound 0)] (early_report [] 1)"
    by simp
  have z: "calculateTotalCombinations ''x'' = 0"
    by (simp add: calculateTotalCombinations_def getCharset_def)
  have d: "driver (early_report [] 1) = D_exit (PasswordNotFound 0)"
    by (simp add: early_report_def)
  from g e d z show ?thesis by simp
qed

text \<open>
  C2 does not hold of the code. The wait group counts the generator only, so the
  \<open>done\<close> signal says that the generator has returned, not that the workers have. For
  the mask \<open>d\<close> and a record no candidate verifies against, the generator puts its ten
  candidates into the channel and returns, and \<open>main\<close> takes the \<open>done\<close> signal and
  reports not-found with 0 attempts, all ten candidates still in the channel, while
  \<open>calculateTotalCombinations\<close> is 10.
\<close>

theorem not_found_before_search_ends:
  "generatePasswords ''d'' = Some (product_lists [''1234567890''])
   \<and> calculateTotalCombinations ''d'' = 10
   \<and> (\<forall>p. verifyPassword reject_kdf p \<lparr>N = 0, R = 8, P = 1, KeyLen = 32, Salt = [], Hash = []\<rparr>
          = Some False)
   \<and> exec reject_kdf \<lparr>N = 0, R = 8, P = 1, KeyLen = 32, Salt = [], Hash = []\<rparr>
       (init (product_lists [''1234567890'']) 4)
       (map Gen_send (product_lists [''1234567890''])
          @ [Gen_close, Gen_wg_done, Select_done, Print (PasswordNotFound 0)])
       (early_report (product_lists [''1234567890'']) 4)
   \<and> driver (early_report (product_lists [''1234567890'']) 4) = D_exit (PasswordNotFound 0)
   \<and> length (passwords (early_report (product_lists [''1234567890'']) 4)) = 10"
proof -
  let ?data = "\<lparr>N = 0, R = 8, P = 1, KeyLen = 32, Salt = [], Hash = []\<rparr>"
  let ?out = "product_lists [''1234567890'']"
  have t: "calculateTotalCombinations ''d'' = 10"
    by (simp add: calculateTotalCombinations_def length_getCharset_d)
  have e: "exec reject_kdf ?data (init ?out 4)
          (map Gen_send ?out @ [Gen_close, Gen_wg_done, Select_done, Print (PasswordNotFound 0)])
          (early_report ?out 4)"
    by (rule early_not_found_run) (simp add: passwords_cap_def)
  have d: "driver (early_report ?out 4) = D_exit (PasswordNotFound 0)"
    "length (passwords (early_report ?out 4)) = 10"
    by (simp_all add: early_report_def)
  from generatePasswords_d t reject_kdf_never e d show ?thesis by blast
qed

text \<open>
  What the code does guarantee: once every worker has returned with the flag unset,
  every candidate has been counted.
\<close>

lemma exhausted_search_counts_all:
  assumes "generatePasswords msk = Some out" and "exec key data (init out n) as s"
    and "0 < n" and "\<forall>w \<in> set (workers s). w = W_exit" and "\<not> found s"
  shows "tried s = of_nat (charset_product msk)"
  using completed_search_count[OF assms(2-5)] length_generatePasswords[OF assms(1)] by simp


end
